theory Spec2Isabelle
  imports Complex_Main "HOL-Library.AList"
begin

section \<open>battery-watch.py: polling loop and termination histograms\<close>

text \<open>
  The script polls the battery's \<^verbatim>\<open>charge_now\<close> counter, records one change event each
  time the value differs from the last recorded one, and prints histograms when it is
  interrupted. Python's unbounded integers are \<open>int\<close>. Python's floats (times, powers,
  bucket bounds) are modelled as exact \<open>real\<close> numbers: every operation computes the
  mathematical result, so rounding error of IEEE doubles is outside this model.
\<close>

subsection \<open>Python arithmetic\<close>

datatype error = ZeroDivisionError | ValueError

definition bind_err :: "error + 'a \<Rightarrow> ('a \<Rightarrow> error + 'b) \<Rightarrow> error + 'b" where
  "bind_err m f = (case m of Inl e \<Rightarrow> Inl e | Inr x \<Rightarrow> f x)"

text \<open>\<^verbatim>\<open>a / b\<close>: raises on a zero divisor.\<close>

definition py_truediv :: "real \<Rightarrow> real \<Rightarrow> error + real" where
  "py_truediv a b = (if b = 0 then Inl ZeroDivisionError else Inr (a / b))"

text \<open>
  \<^verbatim>\<open>a // b\<close> on floats: the floor of the quotient, as a float. The source only divides by
  the non-zero constants \<^verbatim>\<open>HIST_BUCKET_MS\<close> and \<^verbatim>\<open>DELTA_BUCKET_W\<close>.
\<close>

definition py_floordiv :: "real \<Rightarrow> real \<Rightarrow> real" where
  "py_floordiv a b = of_int \<lfloor>a / b\<rfloor>"

text \<open>\<^verbatim>\<open>int(x)\<close> on a float truncates toward zero.\<close>

definition py_int :: "real \<Rightarrow> int" where
  "py_int x = (if 0 \<le> x then \<lfloor>x\<rfloor> else \<lceil>x\<rceil>)"

text \<open>\<^verbatim>\<open>round(x)\<close> on a float rounds to the nearest integer, ties to the even one.\<close>

definition py_round :: "real \<Rightarrow> int" where
  "py_round x =
     (let f = \<lfloor>x\<rfloor>; r = x - of_int f
      in if r < 1 / 2 then f
         else if 1 / 2 < r then f + 1
         else if even f then f else f + 1)"

text \<open>\<^verbatim>\<open>max(xs)\<close> raises \<^verbatim>\<open>ValueError\<close> on an empty sequence.\<close>

definition py_max :: "nat list \<Rightarrow> error + nat" where
  "py_max xs = (case xs of [] \<Rightarrow> Inl ValueError | y # ys \<Rightarrow> Inr (foldl max y ys))"

text \<open>\<^verbatim>\<open>range(b, stop, step)\<close> for a positive step (the source steps by \<^verbatim>\<open>HIST_BUCKET_MS\<close>).\<close>

function py_range :: "int \<Rightarrow> int \<Rightarrow> int \<Rightarrow> int list" where
  "py_range b stop step =
     (if 0 < step \<and> b < stop then b # py_range (b + step) stop step else [])"
  by pat_completeness auto
termination
  by (relation "measure (\<lambda>(b, stop, step). nat (stop - b))") auto

declare py_range.simps [simp del]

text \<open>A dict in insertion order: \<^verbatim>\<open>d.get(k, dflt)\<close> and \<^verbatim>\<open>d[k] = v\<close>.\<close>

definition dict_get :: "('k \<times> 'v) list \<Rightarrow> 'k \<Rightarrow> 'v \<Rightarrow> 'v" where
  "dict_get d k dflt = (case map_of d k of None \<Rightarrow> dflt | Some v \<Rightarrow> v)"

definition dict_set :: "('k \<times> 'v) list \<Rightarrow> 'k \<Rightarrow> 'v \<Rightarrow> ('k \<times> 'v) list" where
  "dict_set d k v = AList.update k v d"

definition dict_values :: "('k \<times> 'v) list \<Rightarrow> 'v list" where
  "dict_values d = map snd d"

subsection \<open>Constants\<close>

definition HIST_BUCKET_MS :: int where
  "HIST_BUCKET_MS = 100"

definition AVG_WINDOW :: nat where
  "AVG_WINDOW = 30"

definition DELTA_BUCKET_W :: real where
  "DELTA_BUCKET_W = 1 / 2"

definition bar_w :: nat where
  "bar_w = 40"

text \<open>The float literal \<^verbatim>\<open>3.6e-6\<close>.\<close>

definition uah_uv_to_w_ms :: real where
  "uah_uv_to_w_ms = 36 / 10000000"

subsection \<open>State of \<^verbatim>\<open>main\<close> and the polling loop\<close>

text \<open>An entry of the rolling window: \<^verbatim>\<open>(delta_uah, dt_ms, voltage_uv, rapl_delta_uj)\<close>.\<close>

type_synonym entry = "int \<times> real \<times> int \<times> int"

record state =
  intervals :: "real list"
  power_deltas :: "real list"
  window :: "entry list"
  prev_charge :: int
  prev_rapl :: int
  prev_time :: real
  sample_num :: nat

text \<open>
  What one iteration reads: \<^verbatim>\<open>charge_now\<close> always; the monotonic clock (seconds),
  \<^verbatim>\<open>voltage_now\<close> and the RAPL counter only after a change was seen.
\<close>

record reading =
  r_charge :: int
  r_now :: real
  r_voltage :: int
  r_rapl :: int

text \<open>
  A change event: the fields of the report line printed for it (the wall-clock time stamp
  apart), and the raw RAPL delta that goes into the window.
\<close>

record event =
  ev_num :: nat
  ev_dt_ms :: real
  ev_charge :: int
  ev_delta :: int
  ev_voltage :: int
  ev_rapl_delta_uj :: int
  ev_power_w :: real
  ev_avg_w :: real
  ev_rapl_w :: real
  ev_rapl_avg_w :: real

definition main_init :: "int \<Rightarrow> int \<Rightarrow> real \<Rightarrow> state" where
  "main_init charge0 rapl0 t0 =
     \<lparr>intervals = [], power_deltas = [], window = [],
      prev_charge = charge0, prev_rapl = rapl0, prev_time = t0, sample_num = 0\<rparr>"

text \<open>The four power computations of a change event (lines 110, 113, 124, 125).\<close>

definition rapl_w_of :: "int \<Rightarrow> real \<Rightarrow> error + real" where
  "rapl_w_of rapl_delta_uj dt_ms =
     (if 0 < dt_ms then py_truediv (of_int rapl_delta_uj) (dt_ms * 1000) else Inr 0)"

definition power_w_of :: "int \<Rightarrow> int \<Rightarrow> real \<Rightarrow> error + real" where
  "power_w_of delta voltage dt_ms =
     (if 0 < dt_ms
      then bind_err (py_truediv (of_int delta * of_int voltage * uah_uv_to_w_ms) dt_ms)
             (\<lambda>q. Inr \<bar>q\<bar>)
      else Inr 0)"

definition sum_energy_of :: "entry list \<Rightarrow> real" where
  "sum_energy_of w = sum_list (map (\<lambda>(d, t, v, r). of_int d * of_int v * uah_uv_to_w_ms) w)"

definition sum_dt_of :: "entry list \<Rightarrow> real" where
  "sum_dt_of w = sum_list (map (\<lambda>(d, t, v, r). t) w)"

definition sum_rapl_of :: "entry list \<Rightarrow> int" where
  "sum_rapl_of w = sum_list (map (\<lambda>(d, t, v, r). r) w)"

definition avg_w_of :: "entry list \<Rightarrow> error + real" where
  "avg_w_of w =
     (if 0 < sum_dt_of w
      then bind_err (py_truediv (sum_energy_of w) (sum_dt_of w)) (\<lambda>q. Inr \<bar>q\<bar>)
      else Inr 0)"

definition rapl_avg_w_of :: "entry list \<Rightarrow> error + real" where
  "rapl_avg_w_of w =
     (if 0 < sum_dt_of w
      then py_truediv (of_int (sum_rapl_of w)) (sum_dt_of w * 1000)
      else Inr 0)"

text \<open>\<^verbatim>\<open>window.append(e)\<close>, then \<^verbatim>\<open>window.pop(0)\<close> when the window is too long.\<close>

definition push_window :: "entry list \<Rightarrow> entry \<Rightarrow> entry list" where
  "push_window w e = (let w1 = w @ [e] in if AVG_WINDOW < length w1 then tl w1 else w1)"

text \<open>
  One iteration of \<^verbatim>\<open>while True\<close> (lines 99 to 138), the sleep apart: the new state and
  the event reported, if any.
\<close>

definition poll :: "state \<Rightarrow> reading \<Rightarrow> error + (state \<times> event option)" where
  "poll s r =
     (if r_charge r = prev_charge s then Inr (s, None)
      else
        let now = r_now r;
            dt_ms = (now - prev_time s) * 1000;
            delta = r_charge r - prev_charge s;
            voltage = r_voltage r;
            rapl = r_rapl r;
            rapl_delta_uj = rapl - prev_rapl s
        in bind_err (rapl_w_of rapl_delta_uj dt_ms) (\<lambda>rapl_w.
           bind_err (power_w_of delta voltage dt_ms) (\<lambda>power_w.
             let num = sample_num s + 1;
                 ivs = intervals s @ [dt_ms];
                 win = push_window (window s) (delta, dt_ms, voltage, rapl_delta_uj)
             in bind_err (avg_w_of win) (\<lambda>avg_w.
                bind_err (rapl_avg_w_of win) (\<lambda>rapl_avg_w.
                  let pds = (if AVG_WINDOW \<le> num then power_deltas s @ [avg_w - rapl_avg_w]
                             else power_deltas s)
                  in Inr (\<lparr>intervals = ivs, power_deltas = pds, window = win,
                            prev_charge = r_charge r, prev_rapl = rapl, prev_time = now,
                            sample_num = num\<rparr>,
                          Some \<lparr>ev_num = num, ev_dt_ms = dt_ms, ev_charge = r_charge r,
                                ev_delta = delta, ev_voltage = voltage,
                                ev_rapl_delta_uj = rapl_delta_uj, ev_power_w = power_w,
                                ev_avg_w = avg_w, ev_rapl_w = rapl_w,
                                ev_rapl_avg_w = rapl_avg_w\<rparr>))))))"

text \<open>
  The loop over the readings that arrive before the interrupt: the final state and the
  events reported, in order. The interrupt is taken between two iterations.
\<close>

fun run :: "state \<Rightarrow> reading list \<Rightarrow> error + (state \<times> event list)" where
  "run s [] = Inr (s, [])"
| "run s (r # rs) =
     bind_err (poll s r) (\<lambda>(s1, out).
     bind_err (run s1 rs) (\<lambda>(s2, outs).
       Inr (s2, (case out of None \<Rightarrow> [] | Some e \<Rightarrow> [e]) @ outs)))"

definition entry_of :: "event \<Rightarrow> entry" where
  "entry_of e = (ev_delta e, ev_dt_ms e, ev_voltage e, ev_rapl_delta_uj e)"

subsection \<open>The termination handler \<^verbatim>\<open>show_histogram\<close>\<close>

text \<open>
  What the handler prints, line by line. A formatted line keeps the values handed to the
  format string (the rendering of the numbers is not modelled); a bar is the string of
  \<^verbatim>\<open>#\<close> characters before padding.
\<close>

datatype line =
    Text string
  | IntervalTitle nat
  | IntervalStats real real real real
  | IntervalRow int string nat
  | DeltaTitle nat
  | DeltaStats real real real real
  | DeltaRow real string nat

definition no_intervals_msg :: string where
  "no_intervals_msg = CHR 0x0A # ''No intervals recorded.''"

definition rule_line :: string where
  "rule_line = replicate 60 CHR ''=''"

text \<open>Line 55 (and 51, 52): \<^verbatim>\<open>int(iv // w) * w\<close> for the integer width \<open>w\<close>.\<close>

definition interval_bucket :: "int \<Rightarrow> real \<Rightarrow> int" where
  "interval_bucket w iv = py_int (py_floordiv iv (of_int w)) * w"

text \<open>Lines 80 to 83: the bucket of a power delta for the float width \<open>w\<close>.\<close>

definition delta_bucket :: "real \<Rightarrow> real \<Rightarrow> real" where
  "delta_bucket w d =
     (if d < 0 then - (py_floordiv (- d) w + 1) * w
      else of_int (py_int (py_floordiv d w)) * w)"

text \<open>The counting loops: \<^verbatim>\<open>buckets[b] = buckets.get(b, 0) + 1\<close>.\<close>

definition count_step :: "('a \<Rightarrow> 'k) \<Rightarrow> ('k \<times> nat) list \<Rightarrow> 'a \<Rightarrow> ('k \<times> nat) list" where
  "count_step f d x = (let b = f x in dict_set d b (dict_get d b 0 + 1))"

definition count_buckets :: "('a \<Rightarrow> 'k) \<Rightarrow> 'a list \<Rightarrow> ('k \<times> nat) list" where
  "count_buckets f xs = foldl (count_step f) [] xs"

text \<open>\<^verbatim>\<open>"#" * round(count / max_count * bar_w) if count else ""\<close>.\<close>

definition bar_of :: "nat \<Rightarrow> nat \<Rightarrow> error + string" where
  "bar_of count max_count =
     (if count \<noteq> 0
      then bind_err (py_truediv (real count) (real max_count))
             (\<lambda>q. Inr (replicate (nat (py_round (q * real bar_w))) CHR ''#''))
      else Inr [])"

fun map_err :: "('a \<Rightarrow> error + 'b) \<Rightarrow> 'a list \<Rightarrow> error + 'b list" where
  "map_err f [] = Inr []"
| "map_err f (x # xs) = bind_err (f x) (\<lambda>y. bind_err (map_err f xs) (\<lambda>ys. Inr (y # ys)))"

definition interval_row :: "(int \<times> nat) list \<Rightarrow> nat \<Rightarrow> int \<Rightarrow> error + line" where
  "interval_row buckets max_count b =
     (let count = dict_get buckets b 0
      in bind_err (bar_of count max_count) (\<lambda>bar. Inr (IntervalRow b bar count)))"

text \<open>Lines 51 to 62: the rows of the interval histogram.\<close>

definition interval_rows :: "real list \<Rightarrow> error + line list" where
  "interval_rows ivs =
     (let s = sort ivs;
          lo = interval_bucket HIST_BUCKET_MS (hd s);
          hi = interval_bucket HIST_BUCKET_MS (last s) + HIST_BUCKET_MS;
          buckets = count_buckets (interval_bucket HIST_BUCKET_MS) ivs
      in bind_err (if buckets \<noteq> [] then py_max (dict_values buckets) else Inr 1)
           (\<lambda>max_count.
              map_err (interval_row buckets max_count) (py_range lo (hi + 1) HIST_BUCKET_MS)))"

text \<open>Lines 44 to 63, entered with a non-empty history.\<close>

definition interval_section :: "real list \<Rightarrow> error + line list" where
  "interval_section ivs =
     (let s = sort ivs; n = length s
      in bind_err (py_truediv (sum_list s) (real n)) (\<lambda>mean.
         bind_err (interval_rows ivs) (\<lambda>rows.
           Inr ([Text (CHR 0x0A # CHR 0x0A # rule_line), IntervalTitle n,
                 IntervalStats (hd s) (s ! (n div 2)) (last s) mean, Text []]
                @ rows @ [Text []]))))"

text \<open>Lines 86 to 91: \<^verbatim>\<open>while b <= hi + DELTA_BUCKET_W / 2\<close>, the values \<open>b\<close> takes.\<close>

function delta_loop :: "real \<Rightarrow> real \<Rightarrow> real list" where
  "delta_loop b hi =
     (if b \<le> hi + DELTA_BUCKET_W / 2 then b # delta_loop (b + DELTA_BUCKET_W) hi else [])"
  by pat_completeness auto
termination
proof (relation "measure (\<lambda>(b, hi). nat (\<lfloor>(hi + DELTA_BUCKET_W / 2 - b) * 2\<rfloor> + 1))")
  show "wf (measure (\<lambda>(b, hi). nat (\<lfloor>(hi + DELTA_BUCKET_W / 2 - b) * 2\<rfloor> + 1)))"
    by simp
next
  fix b hi :: real
  assume le: "b \<le> hi + DELTA_BUCKET_W / 2"
  define x where "x = (hi + DELTA_BUCKET_W / 2 - b) * 2"
  have x0: "0 \<le> x" using le by (simp add: x_def)
  have nxt: "(hi + DELTA_BUCKET_W / 2 - (b + DELTA_BUCKET_W)) * 2 = x - 1"
    by (simp add: x_def DELTA_BUCKET_W_def algebra_simps)
  have "0 \<le> \<lfloor>x\<rfloor>" using x0 by simp
  moreover have "\<lfloor>x - 1\<rfloor> = \<lfloor>x\<rfloor> - 1" by simp
  ultimately have "nat (\<lfloor>x - 1\<rfloor> + 1) < nat (\<lfloor>x\<rfloor> + 1)" by simp
  then have "nat (\<lfloor>(hi + DELTA_BUCKET_W / 2 - (b + DELTA_BUCKET_W)) * 2\<rfloor> + 1)
      < nat (\<lfloor>(hi + DELTA_BUCKET_W / 2 - b) * 2\<rfloor> + 1)"
    unfolding nxt unfolding x_def .
  then show "((b + DELTA_BUCKET_W, hi), (b, hi))
      \<in> measure (\<lambda>(b, hi). nat (\<lfloor>(hi + DELTA_BUCKET_W / 2 - b) * 2\<rfloor> + 1))"
    unfolding in_measure split_conv .
qed

declare delta_loop.simps [simp del]

definition delta_row :: "(real \<times> nat) list \<Rightarrow> nat \<Rightarrow> real \<Rightarrow> error + line" where
  "delta_row dbuckets dmax b =
     (let count = dict_get dbuckets b 0
      in bind_err (bar_of count dmax) (\<lambda>bar. Inr (DeltaRow b bar count)))"

text \<open>Lines 74 to 91: the rows of the power-delta histogram.\<close>

definition delta_rows :: "real list \<Rightarrow> error + line list" where
  "delta_rows pds =
     (let sd = sort pds;
          lo0 = of_int (py_int (py_floordiv (hd sd) DELTA_BUCKET_W)) * DELTA_BUCKET_W;
          lo = (if hd sd < 0 then - (py_floordiv (- hd sd) DELTA_BUCKET_W + 1) * DELTA_BUCKET_W
                else lo0);
          hi = of_int (py_int (py_floordiv (last sd) DELTA_BUCKET_W + 1)) * DELTA_BUCKET_W;
          dbuckets = count_buckets (delta_bucket DELTA_BUCKET_W) pds
      in bind_err (py_max (dict_values dbuckets))
           (\<lambda>dmax. map_err (delta_row dbuckets dmax) (delta_loop lo hi)))"

text \<open>Lines 65 to 92: nothing is printed for an empty power-delta history.\<close>

definition delta_section :: "real list \<Rightarrow> error + line list" where
  "delta_section pds =
     (if pds \<noteq> []
      then
        let sd = sort pds; nd = length sd
        in bind_err (py_truediv (sum_list sd) (real nd)) (\<lambda>mean.
           bind_err (delta_rows pds) (\<lambda>rows.
             Inr ([Text rule_line, DeltaTitle nd,
                   DeltaStats (hd sd) (sd ! (nd div 2)) (last sd) mean, Text []]
                  @ rows @ [Text []])))
      else Inr [])"

text \<open>The handler: the lines printed and the status passed to \<^verbatim>\<open>sys.exit\<close>.\<close>

definition show_histogram :: "state \<Rightarrow> error + (line list \<times> int)" where
  "show_histogram s =
     (if intervals s = [] then Inr ([Text no_intervals_msg], 0)
      else
        bind_err (interval_section (intervals s)) (\<lambda>isec.
        bind_err (delta_section (power_deltas s)) (\<lambda>dsec.
          Inr (isec @ dsec, 0))))"

subsection \<open>Notions of the specification\<close>

text \<open>
  The readings that differ from the value recorded before them, the recorded value being
  the last reading that was reported (or the initial one).
\<close>

fun changed_readings :: "int \<Rightarrow> int list \<Rightarrow> int list" where
  "changed_readings prev [] = []"
| "changed_readings prev (c # cs) =
     (if c \<noteq> prev then c # changed_readings c cs else changed_readings prev cs)"

text \<open>The bucket of \<open>v\<close> by the mathematical floor: \<open>floor (v / w) * w\<close>.\<close>

definition floor_bucket :: "real \<Rightarrow> real \<Rightarrow> real" where
  "floor_bucket w v = of_int \<lfloor>v / w\<rfloor> * w"

text \<open>
  The bucket starts from the bucket of the minimum to the bucket of the maximum,
  inclusive, in steps of the width.
\<close>

definition buckets_min_to_max :: "int \<Rightarrow> real list \<Rightarrow> int list" where
  "buckets_min_to_max w ivs =
     (let lo = \<lfloor>Min (set ivs) / of_int w\<rfloor> * w; hi = \<lfloor>Max (set ivs) / of_int w\<rfloor> * w
      in map (\<lambda>i. lo + w * int i) [0 ..< nat ((hi - lo) div w) + 1])"

text \<open>How many values of a history fall into bucket \<open>b\<close>.\<close>

definition bucket_count :: "('a \<Rightarrow> 'k) \<Rightarrow> 'a list \<Rightarrow> 'k \<Rightarrow> nat" where
  "bucket_count f xs b = length (filter (\<lambda>x. f x = b) xs)"

fun is_delta_line :: "line \<Rightarrow> bool" where
  "is_delta_line (DeltaTitle n) = True"
| "is_delta_line (DeltaStats a b c d) = True"
| "is_delta_line (DeltaRow b bar c) = True"
| "is_delta_line l = False"

text \<open>The median field of a summary line.\<close>

fun stats_median :: "line \<Rightarrow> real option" where
  "stats_median (IntervalStats mn md mx mean) = Some md"
| "stats_median (DeltaStats mn md mx mean) = Some md"
| "stats_median l = None"

text \<open>
  The windowed-average power minus the windowed-average secondary power of a window,
  written out over its entries: the sum of \<open>delta * voltage * 3.6e-6\<close> divided by the sum of
  the elapsed times, in absolute value, minus the sum of the secondary deltas divided by
  1000 times the sum of the elapsed times; both averages are 0 unless the elapsed times
  sum to a positive value.
\<close>

definition windowed_delta :: "entry list \<Rightarrow> real" where
  "windowed_delta w =
     (let total_dt = sum_list (map (\<lambda>e. fst (snd e)) w);
          energy = sum_list (map (\<lambda>e. of_int (fst e) * of_int (fst (snd (snd e)))
                                        * (36 / 10000000)) w);
          rapl = sum_list (map (\<lambda>e. snd (snd (snd e))) w)
      in (if 0 < total_dt then \<bar>energy / total_dt\<bar> else 0)
         - (if 0 < total_dt then of_int rapl / (total_dt * 1000) else 0))"

text \<open>The lower median: the lower of the two middle elements for an even count.\<close>

definition lower_median :: "real list \<Rightarrow> real" where
  "lower_median xs = sort xs ! ((length xs - 1) div 2)"

text \<open>
  The row of bucket \<open>b\<close> for a history all of whose intervals are counted: the number of
  intervals in the bucket, and a bar of \<open>round (count / max_count * 40)\<close> characters.
\<close>

definition counted_row :: "real list \<Rightarrow> int \<Rightarrow> line" where
  "counted_row ivs b =
     (let cnt = bucket_count (interval_bucket HIST_BUCKET_MS) ivs;
          mx = Max (cnt ` interval_bucket HIST_BUCKET_MS ` set ivs)
      in IntervalRow b (replicate (nat (py_round (real (cnt b) / real mx * 40))) CHR ''#'')
           (cnt b))"

text \<open>
  Thirty change events one second apart, the charge alternating between 105 and 100, the
  voltage constant and the RAPL counter advancing by 500000 per event: the battery
  average of the full window is 0 W and the RAPL average 0.5 W.
\<close>

definition alternating_readings :: "reading list" where
  "alternating_readings =
     map (\<lambda>i. \<lparr>r_charge = (if odd i then 105 else 100), r_now = real i,
                r_voltage = 12000000, r_rapl = 500000 * int i\<rparr>) [1 ..< 31]"

section \<open>Properties\<close>

subsection \<open>The power computations never fail\<close>

lemma bind_err_Inr [simp]: "bind_err (Inr x) f = f x"
  by (simp add: bind_err_def)

lemma bind_err_Inl [simp]: "bind_err (Inl e) f = Inl e"
  by (simp add: bind_err_def)

lemma bind_err_pair_id: "bind_err m (\<lambda>(a, b). Inr (a, b)) = m"
  by (cases m) auto

lemma bind_err_Inr_id: "bind_err m Inr = m"
  by (cases m) auto

lemma rapl_w_of_eq:
  "rapl_w_of rd dt = Inr (if 0 < dt then of_int rd / (dt * 1000) else 0)"
  by (simp add: rapl_w_of_def py_truediv_def)

lemma power_w_of_eq:
  "power_w_of d v dt = Inr (if 0 < dt then \<bar>of_int d * of_int v * uah_uv_to_w_ms / dt\<bar> else 0)"
  by (simp add: power_w_of_def py_truediv_def)

lemma avg_w_of_eq:
  "avg_w_of w = Inr (if 0 < sum_dt_of w then \<bar>sum_energy_of w / sum_dt_of w\<bar> else 0)"
  by (simp add: avg_w_of_def py_truediv_def)

lemma rapl_avg_w_of_eq:
  "rapl_avg_w_of w =
     Inr (if 0 < sum_dt_of w then of_int (sum_rapl_of w) / (sum_dt_of w * 1000) else 0)"
  by (simp add: rapl_avg_w_of_def py_truediv_def)

subsection \<open>One iteration\<close>

lemma poll_same: "r_charge r = prev_charge s \<Longrightarrow> poll s r = Inr (s, None)"
  by (simp add: poll_def)

lemma poll_changed:
  assumes "r_charge r \<noteq> prev_charge s"
  shows "\<exists>s1 e. poll s r = Inr (s1, Some e)
    \<and> ev_num e = sample_num s + 1
    \<and> ev_dt_ms e = (r_now r - prev_time s) * 1000
    \<and> ev_charge e = r_charge r
    \<and> ev_delta e = r_charge r - prev_charge s
    \<and> sample_num s1 = sample_num s + 1
    \<and> intervals s1 = intervals s @ [ev_dt_ms e]
    \<and> window s1 = push_window (window s) (entry_of e)
    \<and> power_deltas s1 = (if AVG_WINDOW \<le> sample_num s + 1
         then power_deltas s @ [ev_avg_w e - ev_rapl_avg_w e] else power_deltas s)
    \<and> prev_charge s1 = r_charge r \<and> prev_rapl s1 = r_rapl r \<and> prev_time s1 = r_now r"
  using assms
  by (simp add: poll_def Let_def rapl_w_of_eq power_w_of_eq avg_w_of_eq rapl_avg_w_of_eq
      entry_of_def)

lemma poll_changed_fields:
  assumes "r_charge r \<noteq> prev_charge s" "poll s r = Inr (s1, Some e)"
  shows "ev_num e = sample_num s + 1"
    and "ev_dt_ms e = (r_now r - prev_time s) * 1000"
    and "ev_charge e = r_charge r"
    and "sample_num s1 = sample_num s + 1"
    and "intervals s1 = intervals s @ [ev_dt_ms e]"
    and "window s1 = push_window (window s) (entry_of e)"
    and "power_deltas s1 = (if AVG_WINDOW \<le> sample_num s + 1
         then power_deltas s @ [ev_avg_w e - ev_rapl_avg_w e] else power_deltas s)"
    and "prev_charge s1 = r_charge r"
    and "prev_time s1 = r_now r"
  using poll_changed [OF assms(1)] assms(2) by auto

subsection \<open>The loop\<close>

lemma run_Cons_same:
  "r_charge r = prev_charge s \<Longrightarrow> run s (r # rs) = run s rs"
  by (simp add: poll_same bind_err_pair_id bind_err_Inr_id)

lemma run_Cons_changed:
  "poll s r = Inr (s1, Some e) \<Longrightarrow>
   run s (r # rs) = bind_err (run s1 rs) (\<lambda>(s2, outs). Inr (s2, e # outs))"
  by simp

lemma run_total: "\<exists>s' outs. run s rs = Inr (s', outs)"
proof (induction rs arbitrary: s)
  case Nil
  show ?case by simp
next
  case (Cons r rs)
  show ?case
  proof (cases "r_charge r = prev_charge s")
    case True
    then show ?thesis using Cons.IH [of s] by (simp only: run_Cons_same)
  next
    case False
    from poll_changed [OF False] obtain s1 e where p: "poll s r = Inr (s1, Some e)" by blast
    from Cons.IH [of s1] obtain s' outs where "run s1 rs = Inr (s', outs)" by blast
    then show ?thesis by (simp only: run_Cons_changed [OF p]) simp
  qed
qed

text \<open>Rule induction over a run: one case per branch of the loop body.\<close>

lemma run_induct [consumes 1, case_names Nil Same Changed]:
  assumes r: "run s rs = Inr (s', outs)"
    and nil: "\<And>s. P s [] s []"
    and same: "\<And>s r rs s' outs. r_charge r = prev_charge s \<Longrightarrow> run s rs = Inr (s', outs) \<Longrightarrow>
        P s rs s' outs \<Longrightarrow> P s (r # rs) s' outs"
    and changed: "\<And>s r rs s1 e s' outs. r_charge r \<noteq> prev_charge s \<Longrightarrow>
        poll s r = Inr (s1, Some e) \<Longrightarrow> run s1 rs = Inr (s', outs) \<Longrightarrow>
        P s1 rs s' outs \<Longrightarrow> P s (r # rs) s' (e # outs)"
  shows "P s rs s' outs"
  using r
proof (induction rs arbitrary: s s' outs)
  case Nil
  then show ?case using nil by simp
next
  case (Cons r rs)
  show ?case
  proof (cases "r_charge r = prev_charge s")
    case True
    with Cons.prems have "run s rs = Inr (s', outs)" by (simp only: run_Cons_same)
    then show ?thesis using same [OF True] Cons.IH by blast
  next
    case False
    from poll_changed [OF False] obtain s1 e where p: "poll s r = Inr (s1, Some e)" by blast
    from run_total [of s1 rs] obtain s2 outs2 where r2: "run s1 rs = Inr (s2, outs2)" by blast
    with Cons.prems p have "s' = s2" "outs = e # outs2" by simp_all
    then show ?thesis using changed [OF False p r2] Cons.IH [OF r2] by simp
  qed
qed

lemma run_sample_num:
  "run s rs = Inr (s', outs) \<Longrightarrow> sample_num s' = sample_num s + length outs"
proof (induction rule: run_induct)
  case (Changed s r rs s1 e s' outs)
  from poll_changed_fields(4) [OF Changed(1,2)] Changed.IH show ?case by simp
qed simp_all

lemma run_intervals:
  "run s rs = Inr (s', outs) \<Longrightarrow> intervals s' = intervals s @ map ev_dt_ms outs"
proof (induction rule: run_induct)
  case (Changed s r rs s1 e s' outs)
  from poll_changed_fields(5) [OF Changed(1,2)] Changed.IH show ?case by simp
qed simp_all

lemma run_changed_readings:
  "run s rs = Inr (s', outs) \<Longrightarrow>
   map ev_charge outs = changed_readings (prev_charge s) (map r_charge rs)"
proof (induction rule: run_induct)
  case (Changed s r rs s1 e s' outs)
  from poll_changed_fields(3,8) [OF Changed(1,2)] Changed.IH Changed(1) show ?case by simp
qed simp_all

lemma run_power_deltas:
  "run s rs = Inr (s', outs) \<Longrightarrow>
   power_deltas s' = power_deltas s
     @ map (\<lambda>e. ev_avg_w e - ev_rapl_avg_w e) (drop (AVG_WINDOW - 1 - sample_num s) outs)"
proof (induction rule: run_induct)
  case (Changed s r rs s1 e s' outs)
  note f = poll_changed_fields(4,7) [OF Changed(1,2)]
  show ?case
  proof (cases "AVG_WINDOW \<le> sample_num s + 1")
    case True
    then show ?thesis using Changed.IH f by simp
  next
    case False
    then have "AVG_WINDOW - 1 - sample_num s = Suc (AVG_WINDOW - 1 - (sample_num s + 1))"
      by simp
    then show ?thesis using Changed.IH f False by simp
  qed
qed simp_all

lemma drop_drop_window:
  "drop (length (drop (length xs - n) xs @ ys) - n) (drop (length xs - n) xs @ ys)
   = drop (length (xs @ ys) - n) (xs @ ys)"
  by (cases "length xs \<le> n") (simp_all add: add.commute)

lemma push_window_drop:
  assumes "length w \<le> AVG_WINDOW"
  shows "push_window w x = drop (length (w @ [x]) - AVG_WINDOW) (w @ [x])"
proof (cases "length w = AVG_WINDOW")
  case True
  then have "length (w @ [x]) - AVG_WINDOW = Suc 0" by simp
  then have "drop (length (w @ [x]) - AVG_WINDOW) (w @ [x]) = tl (w @ [x])"
    by (simp only: drop_Suc drop_0)
  then show ?thesis using True by (simp add: push_window_def)
next
  case False
  with assms show ?thesis by (simp add: push_window_def)
qed

lemma run_window:
  "run s rs = Inr (s', outs) \<Longrightarrow> length (window s) \<le> AVG_WINDOW \<Longrightarrow>
   window s' = drop (length (window s @ map entry_of outs) - AVG_WINDOW)
                 (window s @ map entry_of outs)"
proof (induction rule: run_induct)
  case (Nil s)
  then show ?case by simp
next
  case (Same s r rs s' outs)
  then show ?case by simp
next
  case (Changed s r rs s1 e s' outs)
  have w1: "window s1 = drop (length (window s @ [entry_of e]) - AVG_WINDOW)
      (window s @ [entry_of e])"
    using poll_changed_fields(6) [OF Changed(1,2)] Changed.prems
    by (simp only: push_window_drop)
  then have "length (window s1) \<le> AVG_WINDOW" by simp
  then have "window s' = drop (length (window s1 @ map entry_of outs) - AVG_WINDOW)
      (window s1 @ map entry_of outs)"
    using Changed.IH by simp
  also have "\<dots> = drop (length ((window s @ [entry_of e]) @ map entry_of outs) - AVG_WINDOW)
      ((window s @ [entry_of e]) @ map entry_of outs)"
    unfolding w1 by (rule drop_drop_window)
  finally show ?case by simp
qed

subsection \<open>Claims about the polling loop\<close>

text \<open>
  C5: each of the four power computations returns a value for every input, so none of them
  can raise \<^verbatim>\<open>ZeroDivisionError\<close>, and neither can an iteration of the loop. When the
  elapsed time of an event is zero both instantaneous powers are zero, and when the
  elapsed times in the window sum to zero both windowed averages are zero.
\<close>

theorem power_guards:
  "(\<exists>x. rapl_w_of rd dt = Inr x) \<and> (\<exists>x. power_w_of d v dt = Inr x)
   \<and> (\<exists>x. avg_w_of w = Inr x) \<and> (\<exists>x. rapl_avg_w_of w = Inr x)
   \<and> (\<exists>res. poll s r = Inr res)
   \<and> (dt = 0 \<longrightarrow> rapl_w_of rd dt = Inr 0 \<and> power_w_of d v dt = Inr 0)
   \<and> (sum_dt_of w = 0 \<longrightarrow> avg_w_of w = Inr 0 \<and> rapl_avg_w_of w = Inr 0)"
proof -
  have "\<exists>res. poll s r = Inr res"
  proof (cases "r_charge r = prev_charge s")
    case True
    then show ?thesis by (simp add: poll_same)
  next
    case False
    from poll_changed [OF False] show ?thesis by blast
  qed
  then show ?thesis
    by (simp add: rapl_w_of_eq power_w_of_eq avg_w_of_eq rapl_avg_w_of_eq)
qed

theorem power_guards_witness:
  "sum_dt_of [(5, 0, 12000000, 50000)] = 0
   \<and> avg_w_of [(5, 0, 12000000, 50000)] = Inr 0
   \<and> rapl_avg_w_of [(5, 0, 12000000, 50000)] = Inr 0
   \<and> rapl_w_of 50000 0 = Inr 0 \<and> power_w_of 5 12000000 0 = Inr 0"
proof -
  have z: "sum_dt_of [(5, 0, 12000000, 50000)] = 0" by (simp add: sum_dt_of_def)
  have d: "(0::real) = 0" by simp
  from power_guards [of 50000 0 5 12000000 "[(5, 0, 12000000, 50000)]"] z d
  show ?thesis by blast
qed

text \<open>
  C1: an iteration reports an event if and only if the charge it reads differs from the
  recorded one; on an equal reading the state is unchanged and nothing is reported, on a
  different one the event count and the interval history grow by one. Over any sequence
  of readings the events reported are exactly the readings that differ from the value
  recorded before them.
\<close>

theorem change_detection:
  "(\<exists>s1 out. poll s r = Inr (s1, out)
      \<and> (out \<noteq> None) = (r_charge r \<noteq> prev_charge s)
      \<and> (r_charge r = prev_charge s \<longrightarrow> s1 = s)
      \<and> (r_charge r \<noteq> prev_charge s \<longrightarrow>
           sample_num s1 = sample_num s + 1
           \<and> length (intervals s1) = length (intervals s) + 1
           \<and> prev_charge s1 = r_charge r))
   \<and> (\<exists>s' outs. run s rs = Inr (s', outs)
      \<and> map ev_charge outs = changed_readings (prev_charge s) (map r_charge rs)
      \<and> sample_num s' = sample_num s + length outs
      \<and> length (intervals s') = length (intervals s) + length outs)"
proof
  show "\<exists>s1 out. poll s r = Inr (s1, out)
      \<and> (out \<noteq> None) = (r_charge r \<noteq> prev_charge s)
      \<and> (r_charge r = prev_charge s \<longrightarrow> s1 = s)
      \<and> (r_charge r \<noteq> prev_charge s \<longrightarrow>
           sample_num s1 = sample_num s + 1
           \<and> length (intervals s1) = length (intervals s) + 1
           \<and> prev_charge s1 = r_charge r)"
  proof (cases "r_charge r = prev_charge s")
    case True
    then show ?thesis by (simp add: poll_same)
  next
    case False
    from poll_changed [OF False] obtain s1 e where p: "poll s r = Inr (s1, Some e)" by blast
    from poll_changed_fields(4,5,8) [OF False p] False p show ?thesis by simp
  qed
next
  from run_total [of s rs] obtain s' outs where r: "run s rs = Inr (s', outs)" by blast
  from run_changed_readings [OF r] run_sample_num [OF r] run_intervals [OF r] r
  show "\<exists>s' outs. run s rs = Inr (s', outs)
      \<and> map ev_charge outs = changed_readings (prev_charge s) (map r_charge rs)
      \<and> sample_num s' = sample_num s + length outs
      \<and> length (intervals s') = length (intervals s) + length outs"
    by simp
qed

theorem change_detection_witness:
  "poll (main_init 100 0 0) \<lparr>r_charge = 100, r_now = 1, r_voltage = 12000000, r_rapl = 50000\<rparr>
     = Inr (main_init 100 0 0, None)
   \<and> (\<exists>s1 e. poll (main_init 100 0 0)
                \<lparr>r_charge = 105, r_now = 1, r_voltage = 12000000, r_rapl = 50000\<rparr>
              = Inr (s1, Some e) \<and> sample_num s1 = 1 \<and> prev_charge s1 = 105)"
  using change_detection [of "main_init 100 0 0"
      "\<lparr>r_charge = 100, r_now = 1, r_voltage = 12000000, r_rapl = 50000\<rparr>" "[]"]
    change_detection [of "main_init 100 0 0"
      "\<lparr>r_charge = 105, r_now = 1, r_voltage = 12000000, r_rapl = 50000\<rparr>" "[]"]
  by (auto simp: main_init_def)

text \<open>
  C4: after any run from the initial state the window holds at most \<^verbatim>\<open>AVG_WINDOW\<close>
  entries, namely the entries of the most recent \<open>min AVG_WINDOW N\<close> of the \<open>N\<close> events, in
  arrival order; from \<open>N = AVG_WINDOW\<close> on these are exactly the last \<^verbatim>\<open>AVG_WINDOW\<close> events.
  The bound is that of the window between two iterations: inside \<^verbatim>\<open>push_window\<close> the list
  is one entry longer until the oldest entry is popped.
\<close>

theorem window_bounded_recent:
  "\<exists>s' outs. run (main_init c0 p0 t0) rs = Inr (s', outs)
     \<and> length (window s') \<le> AVG_WINDOW
     \<and> length (window s') = min AVG_WINDOW (length outs)
     \<and> window s' = drop (length outs - AVG_WINDOW) (map entry_of outs)"
proof -
  from run_total [of "main_init c0 p0 t0" rs] obtain s' outs
    where r: "run (main_init c0 p0 t0) rs = Inr (s', outs)" by blast
  have "length (window (main_init c0 p0 t0)) \<le> AVG_WINDOW" by (simp add: main_init_def)
  from run_window [OF r this]
  have w: "window s' = drop (length outs - AVG_WINDOW) (map entry_of outs)"
    by (simp add: main_init_def)
  then have "length (window s') = min AVG_WINDOW (length outs)" by simp
  with w r show ?thesis by simp
qed

theorem window_bounded_recent_witness:
  "\<exists>s' outs. run (main_init 100 0 0)
        [\<lparr>r_charge = 105, r_now = 1, r_voltage = 12000000, r_rapl = 50000\<rparr>,
         \<lparr>r_charge = 110, r_now = 2, r_voltage = 12000000, r_rapl = 100000\<rparr>] = Inr (s', outs)
     \<and> length outs = 2 \<and> length (window s') = 2 \<and> window s' = map entry_of outs"
proof -
  let ?rs = "[\<lparr>r_charge = 105, r_now = 1, r_voltage = 12000000, r_rapl = 50000\<rparr>,
              \<lparr>r_charge = 110, r_now = 2, r_voltage = 12000000, r_rapl = 100000\<rparr>]"
  from window_bounded_recent [of 100 0 0 ?rs]
  obtain s' outs where r: "run (main_init 100 0 0) ?rs = Inr (s', outs)"
    and n: "length (window s') = min AVG_WINDOW (length outs)"
    and w: "window s' = drop (length outs - AVG_WINDOW) (map entry_of outs)"
    by blast
  from run_changed_readings [OF r] have "map ev_charge outs = [105, 110]"
    by (simp add: main_init_def)
  then have "length (map ev_charge outs) = 2" by simp
  then have l: "length outs = 2" by simp
  from n w l have "length (window s') = 2" "window s' = map entry_of outs"
    by (simp_all add: AVG_WINDOW_def)
  with r l show ?thesis by blast
qed

text \<open>
  C9: interrupted after a run that recorded no change event, the handler prints the single
  line \<^verbatim>\<open>No intervals recorded.\<close> (after an empty line) and exits with status 0; no
  histogram is printed.
\<close>

theorem no_intervals_exit:
  assumes "run (main_init c0 p0 t0) rs = Inr (s', [])"
  shows "show_histogram s' = Inr ([Text (CHR 0x0A # ''No intervals recorded.'')], 0)"
proof -
  from run_intervals [OF assms] have "intervals s' = []" by (simp add: main_init_def)
  then show ?thesis by (simp add: show_histogram_def no_intervals_msg_def)
qed

theorem no_intervals_exit_witness:
  "run (main_init 100 0 0) [\<lparr>r_charge = 100, r_now = 1, r_voltage = 12000000, r_rapl = 7\<rparr>]
     = Inr (main_init 100 0 0, [])
   \<and> show_histogram (main_init 100 0 0)
     = Inr ([Text (CHR 0x0A # ''No intervals recorded.'')], 0)"
proof -
  have r: "run (main_init 100 0 0)
      [\<lparr>r_charge = 100, r_now = 1, r_voltage = 12000000, r_rapl = 7\<rparr>]
    = Inr (main_init 100 0 0, [])"
    by (simp add: poll_def main_init_def)
  from no_intervals_exit [OF r] r show ?thesis by simp
qed

subsection \<open>Counting into buckets\<close>

lemma dict_get_set:
  "dict_get (dict_set d k v) b dflt = (if b = k then v else dict_get d b dflt)"
  by (simp add: dict_get_def dict_set_def update_conv')

lemma map_of_count_step:
  "map_of (count_step f d x) k
   = (if k = f x then Some (dict_get d k 0 + 1) else map_of d k)"
  by (simp add: count_step_def Let_def dict_set_def update_conv')

lemma dict_get_count_step:
  "dict_get (count_step f d x) k 0 = (if k = f x then dict_get d k 0 + 1 else dict_get d k 0)"
  by (simp add: count_step_def Let_def dict_get_set)

lemma bucket_count_Cons:
  "bucket_count f (x # xs) k = (if f x = k then Suc (bucket_count f xs k) else bucket_count f xs k)"
  by (simp add: bucket_count_def)

lemma bucket_count_Nil: "bucket_count f [] k = 0"
  by (simp add: bucket_count_def)

lemma bucket_count_pos: "k \<in> f ` set xs \<Longrightarrow> 0 < bucket_count f xs k"
  by (induction xs) (auto simp: bucket_count_Cons bucket_count_Nil)

lemma bucket_count_zero: "k \<notin> f ` set xs \<Longrightarrow> bucket_count f xs k = 0"
  by (induction xs) (auto simp: bucket_count_Cons bucket_count_Nil)

lemma map_of_count_fold:
  "map_of (foldl (count_step f) d xs) k
   = (if k \<in> f ` set xs then Some (dict_get d k 0 + bucket_count f xs k) else map_of d k)"
proof (induction xs arbitrary: d)
  case Nil
  show ?case by simp
next
  case (Cons x xs)
  have "map_of (foldl (count_step f) (count_step f d x) xs) k
    = (if k \<in> f ` set xs
       then Some (dict_get (count_step f d x) k 0 + bucket_count f xs k)
       else map_of (count_step f d x) k)"
    by (rule Cons.IH)
  then show ?case
    by (auto simp: dict_get_count_step map_of_count_step bucket_count_Cons bucket_count_zero)
qed

lemma distinct_count_fold:
  "distinct (map fst d) \<Longrightarrow> distinct (map fst (foldl (count_step f) d xs))"
  by (induction xs arbitrary: d) (simp_all add: count_step_def Let_def dict_set_def distinct_update)

lemma map_of_count_buckets:
  "map_of (count_buckets f xs) k
   = (if k \<in> f ` set xs then Some (bucket_count f xs k) else None)"
  by (simp add: count_buckets_def map_of_count_fold dict_get_def)

lemma dict_get_count_buckets:
  "dict_get (count_buckets f xs) k 0 = bucket_count f xs k"
  by (cases "k \<in> f ` set xs")
     (simp_all add: dict_get_def map_of_count_buckets bucket_count_zero)

lemma values_count_buckets:
  "set (dict_values (count_buckets f xs)) = bucket_count f xs ` f ` set xs"
proof -
  have d: "distinct (map fst (count_buckets f xs))"
    unfolding count_buckets_def by (rule distinct_count_fold) simp
  have "set (dict_values (count_buckets f xs)) = ran (map_of (count_buckets f xs))"
    by (simp add: dict_values_def ran_distinct [OF d])
  also have "\<dots> = bucket_count f xs ` f ` set xs"
    by (auto simp: ran_def map_of_count_buckets split: if_splits)
  finally show ?thesis .
qed

lemma count_buckets_nonempty: "xs \<noteq> [] \<Longrightarrow> count_buckets f xs \<noteq> []"
proof -
  assume "xs \<noteq> []"
  then obtain x where "x \<in> set xs" by (cases xs) auto
  then have "map_of (count_buckets f xs) (f x) \<noteq> None"
    by (simp add: map_of_count_buckets)
  then show ?thesis by auto
qed

lemma foldl_max_Max: "foldl max (y::nat) ys = Max (set (y # ys))"
proof -
  have "(\<lambda>x s. max s x) = (max :: nat \<Rightarrow> nat \<Rightarrow> nat)"
    by (intro ext) (rule max.commute)
  then show ?thesis by (simp only: Max.set_eq_fold foldl_conv_fold)
qed

lemma py_max_nonempty: "xs \<noteq> [] \<Longrightarrow> py_max xs = Inr (Max (set xs))"
  by (cases xs) (simp_all add: py_max_def foldl_max_Max del: set_simps)

subsection \<open>Rows of the histograms\<close>

lemma py_round_0: "py_round 0 = 0"
  by (simp add: py_round_def)

lemma bar_of_eq:
  "(count \<noteq> 0 \<Longrightarrow> mx \<noteq> 0) \<Longrightarrow>
   bar_of count mx
   = Inr (replicate (nat (py_round (real count / real mx * real bar_w))) CHR ''#'')"
  by (cases "count = 0") (simp_all add: bar_of_def py_truediv_def py_round_0)

lemma map_err_Inr:
  "(\<And>x. x \<in> set xs \<Longrightarrow> f x = Inr (g x)) \<Longrightarrow> map_err f xs = Inr (map g xs)"
  by (induction xs) simp_all

lemma py_int_of_int: "py_int (of_int z) = z"
  by (simp add: py_int_def)

lemma interval_bucket_floor: "interval_bucket w iv = \<lfloor>iv / of_int w\<rfloor> * w"
  by (simp add: interval_bucket_def py_floordiv_def py_int_of_int)

lemma py_range_steps:
  "0 < step \<Longrightarrow>
   py_range b (b + step * int k + 1) step = map (\<lambda>i. b + step * int i) [0 ..< Suc k]"
proof (induction k arbitrary: b)
  case 0
  then have "py_range (b + step) (b + 1) step = []"
    by (subst py_range.simps) simp
  with 0 show ?case by (subst py_range.simps) simp
next
  case (Suc k)
  have stop: "b + step * int (Suc k) + 1 = (b + step) + step * int k + 1"
    by (simp add: algebra_simps)
  have lt: "b < b + step * int (Suc k) + 1"
    using Suc.prems by (simp add: add_pos_nonneg less_imp_le add.assoc)
  have "py_range b (b + step * int (Suc k) + 1) step
      = b # py_range (b + step) ((b + step) + step * int k + 1) step"
    using Suc.prems lt by (subst py_range.simps) (simp add: algebra_simps)
  also have "\<dots> = b # map (\<lambda>i. (b + step) + step * int i) [0 ..< Suc k]"
    using Suc.IH [OF Suc.prems] by simp
  also have "\<dots> = map (\<lambda>i. b + step * int i) [0 ..< Suc (Suc k)]"
    by (subst (2) map_upt_Suc) (simp add: algebra_simps)
  finally show ?case .
qed

lemma hd_sort_Min: "xs \<noteq> [] \<Longrightarrow> hd (sort xs) = Min (set xs)"
proof -
  assume ne: "xs \<noteq> []"
  then have "sort xs \<noteq> []" by (metis length_0_conv length_sort)
  then obtain y ys where s: "sort xs = y # ys" by (cases "sort xs") auto
  have "sorted (y # ys)" using sorted_sort [where xs = xs] s by simp
  then have le: "\<forall>x\<in>set (y # ys). y \<le> x" by auto
  have "set (y # ys) = set xs" by (metis set_sort s)
  then have "Min (set xs) = Min (set (y # ys))" by simp
  also have "\<dots> = y" using le by (intro Min_eqI) auto
  finally show ?thesis by (simp add: s)
qed

lemma sorted_le_last: "sorted ys \<Longrightarrow> x \<in> set ys \<Longrightarrow> x \<le> last ys"
  by (induction ys) auto

lemma last_sort_Max: "xs \<noteq> [] \<Longrightarrow> last (sort xs) = Max (set xs)"
proof -
  assume ne: "xs \<noteq> []"
  then have n: "sort xs \<noteq> []" by (metis length_0_conv length_sort)
  have "\<forall>x\<in>set (sort xs). x \<le> last (sort xs)"
    using sorted_le_last [OF sorted_sort] by blast
  moreover have "last (sort xs) \<in> set (sort xs)" by (rule last_in_set [OF n])
  ultimately have "Max (set (sort xs)) = last (sort xs)"
    by (intro Max_eqI) auto
  then show ?thesis by simp
qed

lemma Max_count_pos:
  assumes "xs \<noteq> []"
  shows "0 < Max (bucket_count f xs ` f ` set xs)"
proof -
  from assms obtain x where x: "x \<in> set xs" by (cases xs) auto
  have "bucket_count f xs (f x) \<le> Max (bucket_count f xs ` f ` set xs)"
    using x by (intro Max_ge) auto
  moreover have "0 < bucket_count f xs (f x)" using x by (intro bucket_count_pos) simp
  ultimately show ?thesis by linarith
qed

lemma py_max_count_buckets:
  assumes "xs \<noteq> []"
  shows "py_max (dict_values (count_buckets f xs)) = Inr (Max (bucket_count f xs ` f ` set xs))"
proof -
  have "dict_values (count_buckets f xs) \<noteq> []"
    using count_buckets_nonempty [OF assms, of f] by (simp add: dict_values_def)
  then have "py_max (dict_values (count_buckets f xs))
      = Inr (Max (set (dict_values (count_buckets f xs))))"
    by (rule py_max_nonempty)
  then show ?thesis by (simp only: values_count_buckets)
qed

lemma interval_row_eq:
  assumes "mx \<noteq> 0"
  shows "interval_row (count_buckets f ivs) mx b
    = Inr (IntervalRow b
        (replicate (nat (py_round (real (bucket_count f ivs b) / real mx * real bar_w))) CHR ''#'')
        (bucket_count f ivs b))"
  using assms by (simp add: interval_row_def Let_def dict_get_count_buckets bar_of_eq)

lemma delta_row_eq:
  assumes "mx \<noteq> 0"
  shows "delta_row (count_buckets f pds) mx b
    = Inr (DeltaRow b
        (replicate (nat (py_round (real (bucket_count f pds b) / real mx * real bar_w))) CHR ''#'')
        (bucket_count f pds b))"
  using assms by (simp add: delta_row_def Let_def dict_get_count_buckets bar_of_eq)

lemma interval_rows_eq:
  assumes "ivs \<noteq> []"
  shows "interval_rows ivs
    = Inr (map (\<lambda>b. IntervalRow b
            (replicate (nat (py_round
               (real (bucket_count (interval_bucket HIST_BUCKET_MS) ivs b)
                / real (Max (bucket_count (interval_bucket HIST_BUCKET_MS) ivs
                         ` interval_bucket HIST_BUCKET_MS ` set ivs))
                * real bar_w))) CHR ''#'')
            (bucket_count (interval_bucket HIST_BUCKET_MS) ivs b))
          (py_range (interval_bucket HIST_BUCKET_MS (hd (sort ivs)))
             (interval_bucket HIST_BUCKET_MS (last (sort ivs)) + HIST_BUCKET_MS + 1)
             HIST_BUCKET_MS))"
proof -
  let ?f = "interval_bucket HIST_BUCKET_MS"
  let ?mx = "Max (bucket_count ?f ivs ` ?f ` set ivs)"
  have mx: "?mx \<noteq> 0" using Max_count_pos [OF assms, of ?f] by simp
  have ne: "count_buckets ?f ivs \<noteq> []" by (rule count_buckets_nonempty [OF assms])
  show ?thesis
    unfolding interval_rows_def Let_def
    by (simp only: ne py_max_count_buckets [OF assms] bind_err_Inr if_True not_False_eq_True)
       (rule map_err_Inr, rule interval_row_eq [OF mx])
qed

lemma delta_rows_total:
  assumes "pds \<noteq> []"
  shows "\<exists>bs. delta_rows pds
    = Inr (map (\<lambda>b. DeltaRow b
            (replicate (nat (py_round
               (real (bucket_count (delta_bucket DELTA_BUCKET_W) pds b)
                / real (Max (bucket_count (delta_bucket DELTA_BUCKET_W) pds
                         ` delta_bucket DELTA_BUCKET_W ` set pds))
                * real bar_w))) CHR ''#'')
            (bucket_count (delta_bucket DELTA_BUCKET_W) pds b)) bs)"
proof -
  let ?f = "delta_bucket DELTA_BUCKET_W"
  let ?mx = "Max (bucket_count ?f pds ` ?f ` set pds)"
  have mx: "?mx \<noteq> 0" using Max_count_pos [OF assms, of ?f] by simp
  show ?thesis
    unfolding delta_rows_def Let_def
    by (simp only: py_max_count_buckets [OF assms] bind_err_Inr)
       (intro exI, rule map_err_Inr, rule delta_row_eq [OF mx])
qed

lemma sort_eq_Nil: "(sort xs = []) = (xs = [])"
  by (metis length_0_conv length_sort)

lemma interval_section_eq:
  assumes "ivs \<noteq> []" "interval_rows ivs = Inr rows"
  shows "interval_section ivs
    = Inr ([Text (CHR 0x0A # CHR 0x0A # rule_line), IntervalTitle (length ivs),
            IntervalStats (hd (sort ivs)) (sort ivs ! (length ivs div 2)) (last (sort ivs))
              (sum_list (sort ivs) / real (length ivs)),
            Text []] @ rows @ [Text []])"
  using assms by (simp add: interval_section_def Let_def py_truediv_def sort_eq_Nil)

lemma delta_section_eq:
  assumes "pds \<noteq> []" "delta_rows pds = Inr rows"
  shows "delta_section pds
    = Inr ([Text rule_line, DeltaTitle (length pds),
            DeltaStats (hd (sort pds)) (sort pds ! (length pds div 2)) (last (sort pds))
              (sum_list (sort pds) / real (length pds)),
            Text []] @ rows @ [Text []])"
  using assms by (simp add: delta_section_def Let_def py_truediv_def sort_eq_Nil)

subsection \<open>The handler as a whole\<close>

lemma interval_range_eq:
  assumes "ivs \<noteq> []"
  shows "py_range (interval_bucket HIST_BUCKET_MS (hd (sort ivs)))
           (interval_bucket HIST_BUCKET_MS (last (sort ivs)) + HIST_BUCKET_MS + 1) HIST_BUCKET_MS
         = buckets_min_to_max HIST_BUCKET_MS ivs
           @ [interval_bucket HIST_BUCKET_MS (Max (set ivs)) + HIST_BUCKET_MS]"
proof -
  define a where "a = \<lfloor>Min (set ivs) / 100\<rfloor>"
  define b where "b = \<lfloor>Max (set ivs) / 100\<rfloor>"
  define k where "k = nat (b - a)"
  have "Min (set ivs) \<le> Max (set ivs)" using assms by (intro Min_le Max_in) simp_all
  then have "Min (set ivs) / 100 \<le> Max (set ivs) / 100" by simp
  then have ab: "a \<le> b" unfolding a_def b_def by (rule floor_mono)
  then have bk: "b = a + int k" by (simp add: k_def)
  have lo: "interval_bucket HIST_BUCKET_MS (hd (sort ivs)) = a * 100"
    by (simp add: interval_bucket_floor hd_sort_Min [OF assms] HIST_BUCKET_MS_def a_def)
  have hi: "interval_bucket HIST_BUCKET_MS (last (sort ivs)) = b * 100"
    by (simp add: interval_bucket_floor last_sort_Max [OF assms] HIST_BUCKET_MS_def b_def)
  have mx: "interval_bucket HIST_BUCKET_MS (Max (set ivs)) = b * 100"
    by (simp add: interval_bucket_floor HIST_BUCKET_MS_def b_def)
  have stop: "b * 100 + 100 + 1 = a * 100 + 100 * int (Suc k) + 1"
    by (simp add: bk algebra_simps)
  have "py_range (a * 100) (b * 100 + 100 + 1) 100
      = map (\<lambda>i. a * 100 + 100 * int i) [0 ..< Suc (Suc k)]"
    unfolding stop by (rule py_range_steps) simp
  also have "\<dots> = map (\<lambda>i. a * 100 + 100 * int i) [0 ..< Suc k] @ [b * 100 + 100]"
    by (simp add: bk algebra_simps)
  also have "map (\<lambda>i. a * 100 + 100 * int i) [0 ..< Suc k]
      = buckets_min_to_max HIST_BUCKET_MS ivs"
  proof -
    have "(b * 100 - a * 100) div 100 = b - a" by simp
    then show ?thesis
      by (simp add: buckets_min_to_max_def Let_def HIST_BUCKET_MS_def
          a_def [symmetric] b_def [symmetric] k_def)
  qed
  finally show ?thesis unfolding lo hi mx by (simp add: HIST_BUCKET_MS_def)
qed

lemma interval_bucket_mono: "0 < w \<Longrightarrow> x \<le> y \<Longrightarrow> interval_bucket w x \<le> interval_bucket w y"
proof -
  assume w: "0 < w" and xy: "x \<le> y"
  then have "x / of_int w \<le> y / of_int w" by (simp add: divide_right_mono)
  then have "\<lfloor>x / of_int w\<rfloor> \<le> \<lfloor>y / of_int w\<rfloor>" by (rule floor_mono)
  then show ?thesis using w by (simp add: interval_bucket_floor)
qed

lemma no_interval_above_max:
  "bucket_count (interval_bucket HIST_BUCKET_MS) ivs
     (interval_bucket HIST_BUCKET_MS (Max (set ivs)) + HIST_BUCKET_MS) = 0"
proof (rule bucket_count_zero, rule notI)
  assume "interval_bucket HIST_BUCKET_MS (Max (set ivs)) + HIST_BUCKET_MS
      \<in> interval_bucket HIST_BUCKET_MS ` set ivs"
  then obtain x where x: "x \<in> set ivs"
    and e: "interval_bucket HIST_BUCKET_MS x
      = interval_bucket HIST_BUCKET_MS (Max (set ivs)) + HIST_BUCKET_MS" by auto
  have "x \<le> Max (set ivs)" using x by simp
  then have "interval_bucket HIST_BUCKET_MS x \<le> interval_bucket HIST_BUCKET_MS (Max (set ivs))"
    by (intro interval_bucket_mono) (simp_all add: HIST_BUCKET_MS_def)
  with e show False by (simp add: HIST_BUCKET_MS_def)
qed

lemma no_median_in_interval_rows:
  "List.map_filter stats_median (map (\<lambda>b. IntervalRow b (g b) (c b)) bs) = []"
  by (induction bs) (simp_all add: List.map_filter_simps)

lemma no_median_in_delta_rows:
  "List.map_filter stats_median (map (\<lambda>b. DeltaRow b (g b) (c b)) bs) = []"
  by (induction bs) (simp_all add: List.map_filter_simps)

lemma map_filter_append:
  "List.map_filter f (xs @ ys) = List.map_filter f xs @ List.map_filter f ys"
  by (simp add: List.map_filter_def)

lemma interval_section_median:
  assumes "ivs \<noteq> []"
  shows "\<exists>isec. interval_section ivs = Inr isec
    \<and> List.map_filter stats_median isec = [sort ivs ! (length ivs div 2)]"
  unfolding interval_section_eq [OF assms interval_rows_eq [OF assms]]
  by (simp add: map_filter_append no_median_in_interval_rows List.map_filter_simps)

lemma delta_section_median:
  assumes "pds \<noteq> []"
  shows "\<exists>dsec. delta_section pds = Inr dsec
    \<and> List.map_filter stats_median dsec = [sort pds ! (length pds div 2)]"
proof -
  from delta_rows_total [OF assms] obtain bs where
    r: "delta_rows pds = Inr (map (\<lambda>b. DeltaRow b
            (replicate (nat (py_round
               (real (bucket_count (delta_bucket DELTA_BUCKET_W) pds b)
                / real (Max (bucket_count (delta_bucket DELTA_BUCKET_W) pds
                         ` delta_bucket DELTA_BUCKET_W ` set pds))
                * real bar_w))) CHR ''#'')
            (bucket_count (delta_bucket DELTA_BUCKET_W) pds b)) bs)" by blast
  show ?thesis
    unfolding delta_section_eq [OF assms r]
    by (simp add: map_filter_append no_median_in_delta_rows List.map_filter_simps)
qed

lemma windowed_delta_eq:
  assumes "avg_w_of w = Inr a" "rapl_avg_w_of w = Inr b"
  shows "a - b = windowed_delta w"
proof -
  have 1: "sum_dt_of w = sum_list (map (\<lambda>e. fst (snd e)) w)"
    by (simp add: sum_dt_of_def case_prod_unfold)
  have 2: "sum_energy_of w = sum_list (map (\<lambda>e. of_int (fst e) * of_int (fst (snd (snd e)))
                                        * (36 / 10000000)) w)"
    by (simp add: sum_energy_of_def case_prod_unfold uah_uv_to_w_ms_def)
  have 3: "sum_rapl_of w = sum_list (map (\<lambda>e. snd (snd (snd e))) w)"
    by (simp add: sum_rapl_of_def case_prod_unfold)
  from assms show ?thesis
    unfolding avg_w_of_eq rapl_avg_w_of_eq windowed_delta_def Let_def 1 2 3
    by (simp split: if_splits)
qed

lemma poll_changed_avgs:
  assumes "poll s r = Inr (s1, Some e)"
  shows "avg_w_of (window s1) = Inr (ev_avg_w e)"
    and "rapl_avg_w_of (window s1) = Inr (ev_rapl_avg_w e)"
proof -
  have c: "r_charge r \<noteq> prev_charge s" using assms by (auto simp: poll_def)
  then have "poll s r = Inr (s1, Some e) \<longrightarrow>
      avg_w_of (window s1) = Inr (ev_avg_w e)
      \<and> rapl_avg_w_of (window s1) = Inr (ev_rapl_avg_w e)"
    by (auto simp: poll_def Let_def rapl_w_of_eq power_w_of_eq avg_w_of_eq rapl_avg_w_of_eq)
  with assms show "avg_w_of (window s1) = Inr (ev_avg_w e)"
    and "rapl_avg_w_of (window s1) = Inr (ev_rapl_avg_w e)" by blast+
qed

lemma poll_changed_delta:
  assumes "poll s r = Inr (s1, Some e)"
  shows "ev_avg_w e - ev_rapl_avg_w e = windowed_delta (window s1)"
  using poll_changed_avgs [OF assms] by (rule windowed_delta_eq)

lemma run_event_deltas:
  "run s rs = Inr (s', outs) \<Longrightarrow> length (window s) \<le> AVG_WINDOW \<Longrightarrow> i < length outs \<Longrightarrow>
   ev_avg_w (outs ! i) - ev_rapl_avg_w (outs ! i)
   = windowed_delta
       (drop (length (window s @ take (Suc i) (map entry_of outs)) - AVG_WINDOW)
          (window s @ take (Suc i) (map entry_of outs)))"
proof (induction arbitrary: i rule: run_induct)
  case (Nil s)
  then show ?case by simp
next
  case (Same s r rs s' outs)
  then show ?case by simp
next
  case (Changed s r rs s1 e s' outs)
  have w1: "window s1 = drop (length (window s @ [entry_of e]) - AVG_WINDOW)
      (window s @ [entry_of e])"
    using poll_changed_fields(6) [OF Changed(1,2)] Changed.prems(1)
    by (simp only: push_window_drop)
  then have l1: "length (window s1) \<le> AVG_WINDOW" by simp
  show ?case
  proof (cases i)
    case 0
    then show ?thesis using poll_changed_delta [OF Changed(2)] by (simp add: w1)
  next
    case (Suc j)
    with Changed.prems have j: "j < length outs" by simp
    have "ev_avg_w (outs ! j) - ev_rapl_avg_w (outs ! j)
      = windowed_delta
          (drop (length (window s1 @ take (Suc j) (map entry_of outs)) - AVG_WINDOW)
            (window s1 @ take (Suc j) (map entry_of outs)))"
      by (rule Changed.IH [OF l1 j])
    also have "drop (length (window s1 @ take (Suc j) (map entry_of outs)) - AVG_WINDOW)
            (window s1 @ take (Suc j) (map entry_of outs))
        = drop (length ((window s @ [entry_of e]) @ take (Suc j) (map entry_of outs)) - AVG_WINDOW)
            ((window s @ [entry_of e]) @ take (Suc j) (map entry_of outs))"
      unfolding w1 by (rule drop_drop_window)
    finally show ?thesis by (simp add: Suc)
  qed
qed

lemma drop_as_nth: "drop n xs = map (\<lambda>i. xs ! i) [n ..< length xs]"
proof -
  have "drop n xs = drop n (map (\<lambda>i. xs ! i) [0 ..< length xs])" by (simp add: map_nth)
  also have "\<dots> = map (\<lambda>i. xs ! i) (drop n [0 ..< length xs])" by (rule drop_map)
  finally show ?thesis by (simp add: drop_upt)
qed

lemma run_power_deltas_window:
  assumes r: "run (main_init c0 p0 t0) rs = Inr (s', outs)"
  shows "power_deltas s'
    = map (\<lambda>i. windowed_delta (drop (Suc i - AVG_WINDOW) (take (Suc i) (map entry_of outs))))
        [AVG_WINDOW - 1 ..< length outs]"
proof -
  have l: "length (window (main_init c0 p0 t0)) \<le> AVG_WINDOW" by (simp add: main_init_def)
  have "power_deltas s' = map (\<lambda>e. ev_avg_w e - ev_rapl_avg_w e) (drop (AVG_WINDOW - 1) outs)"
    using run_power_deltas [OF r] by (simp add: main_init_def)
  also have "\<dots> = map (\<lambda>i. ev_avg_w (outs ! i) - ev_rapl_avg_w (outs ! i))
      [AVG_WINDOW - 1 ..< length outs]"
    by (simp add: drop_as_nth [of _ outs] o_def)
  also have "\<dots> = map (\<lambda>i. windowed_delta
      (drop (Suc i - AVG_WINDOW) (take (Suc i) (map entry_of outs))))
        [AVG_WINDOW - 1 ..< length outs]"
  proof (rule map_cong [OF refl])
    fix i assume "i \<in> set [AVG_WINDOW - 1 ..< length outs]"
    then have i: "i < length outs" by simp
    then have m: "min (length outs) (Suc i) = Suc i" by simp
    from run_event_deltas [OF r l i] show "ev_avg_w (outs ! i) - ev_rapl_avg_w (outs ! i)
      = windowed_delta (drop (Suc i - AVG_WINDOW) (take (Suc i) (map entry_of outs)))"
      by (simp add: main_init_def m)
  qed
  finally show ?thesis .
qed

lemma delta_section_shape:
  assumes "pds \<noteq> []"
  shows "\<exists>drows. delta_rows pds = Inr drows
    \<and> delta_section pds
      = Inr ([Text rule_line, DeltaTitle (length pds),
              DeltaStats (hd (sort pds)) (sort pds ! (length pds div 2)) (last (sort pds))
                (sum_list (sort pds) / real (length pds)),
              Text []] @ drows @ [Text []])
    \<and> List.map_filter stats_median drows = []"
proof -
  from delta_rows_total [OF assms] obtain bs where
    r: "delta_rows pds = Inr (map (\<lambda>b. DeltaRow b
            (replicate (nat (py_round
               (real (bucket_count (delta_bucket DELTA_BUCKET_W) pds b)
                / real (Max (bucket_count (delta_bucket DELTA_BUCKET_W) pds
                         ` delta_bucket DELTA_BUCKET_W ` set pds))
                * real bar_w))) CHR ''#'')
            (bucket_count (delta_bucket DELTA_BUCKET_W) pds b)) bs)" by blast
  from delta_section_eq [OF assms r] r show ?thesis
    by (simp add: no_median_in_delta_rows)
qed

lemma show_histogram_eq:
  assumes "intervals s \<noteq> []"
  shows "\<exists>rows dsec. interval_rows (intervals s) = Inr rows
    \<and> delta_section (power_deltas s) = Inr dsec
    \<and> show_histogram s
      = Inr ([Text (CHR 0x0A # CHR 0x0A # rule_line), IntervalTitle (length (intervals s)),
              IntervalStats (hd (sort (intervals s)))
                (sort (intervals s) ! (length (intervals s) div 2)) (last (sort (intervals s)))
                (sum_list (sort (intervals s)) / real (length (intervals s))),
              Text []] @ rows @ [Text []] @ dsec, 0)"
proof -
  from interval_rows_eq [OF assms] obtain rows where r: "interval_rows (intervals s) = Inr rows"
    by blast
  have "\<exists>dsec. delta_section (power_deltas s) = Inr dsec"
  proof (cases "power_deltas s = []")
    case True
    then show ?thesis by (simp add: delta_section_def)
  next
    case False
    from delta_section_shape [OF False] show ?thesis by blast
  qed
  then obtain dsec where d: "delta_section (power_deltas s) = Inr dsec" by blast
  have "show_histogram s
      = Inr ([Text (CHR 0x0A # CHR 0x0A # rule_line), IntervalTitle (length (intervals s)),
              IntervalStats (hd (sort (intervals s)))
                (sort (intervals s) ! (length (intervals s) div 2)) (last (sort (intervals s)))
                (sum_list (sort (intervals s)) / real (length (intervals s))),
              Text []] @ rows @ [Text []] @ dsec, 0)"
    using assms by (simp add: show_histogram_def interval_section_eq [OF assms r] d)
  with r d show ?thesis by blast
qed

lemma delta_section_total: "\<exists>dsec. delta_section pds = Inr dsec"
proof (cases "pds = []")
  case True
  then show ?thesis by (simp add: delta_section_def)
next
  case False
  from delta_section_shape [OF False] show ?thesis by blast
qed

lemma interval_rows_counted:
  assumes "ivs \<noteq> []"
  shows "interval_rows ivs
    = Inr (map (counted_row ivs)
        (buckets_min_to_max HIST_BUCKET_MS ivs
         @ [interval_bucket HIST_BUCKET_MS (Max (set ivs)) + HIST_BUCKET_MS]))"
  using interval_rows_eq [OF assms] interval_range_eq [OF assms]
  by (simp add: counted_row_def Let_def bar_w_def)

lemma bucket_in_range:
  assumes "x \<in> set ivs"
  shows "interval_bucket HIST_BUCKET_MS x \<in> set (buckets_min_to_max HIST_BUCKET_MS ivs)"
proof -
  define a where "a = \<lfloor>Min (set ivs) / 100\<rfloor>"
  define b where "b = \<lfloor>Max (set ivs) / 100\<rfloor>"
  define c where "c = \<lfloor>x / 100\<rfloor>"
  have "Min (set ivs) \<le> x" "x \<le> Max (set ivs)" using assms by simp_all
  then have "Min (set ivs) / 100 \<le> x / 100" "x / 100 \<le> Max (set ivs) / 100" by simp_all
  then have ac: "a \<le> c" and cb: "c \<le> b"
    unfolding a_def b_def c_def by (simp_all add: floor_mono)
  have d: "(b * 100 - a * 100) div 100 = b - a" by simp
  have "nat (c - a) \<le> nat (b - a)" using cb by (intro nat_mono) simp
  then have "nat (c - a) < Suc (nat (b - a))" by (rule le_imp_less_Suc)
  then have i: "nat (c - a) \<in> set [0 ..< nat (b - a) + 1]" by (simp del: upt_Suc)
  have "interval_bucket HIST_BUCKET_MS x = a * 100 + 100 * int (nat (c - a))"
    using ac by (simp add: interval_bucket_floor HIST_BUCKET_MS_def c_def)
  also have "\<dots> \<in> (\<lambda>i. a * 100 + 100 * int i) ` set [0 ..< nat (b - a) + 1]"
    using i by (rule imageI)
  also have "(\<lambda>i. a * 100 + 100 * int i) ` set [0 ..< nat (b - a) + 1]
      = set (buckets_min_to_max HIST_BUCKET_MS ivs)"
    by (simp add: buckets_min_to_max_def Let_def HIST_BUCKET_MS_def
        a_def [symmetric] b_def [symmetric] d)
  finally show ?thesis .
qed

lemma show_histogram_medians:
  assumes "intervals s \<noteq> []"
  shows "\<exists>ls. show_histogram s = Inr (ls, 0)
    \<and> List.map_filter stats_median ls
      = sort (intervals s) ! (length (intervals s) div 2)
        # (if power_deltas s = [] then []
           else [sort (power_deltas s) ! (length (power_deltas s) div 2)])"
proof -
  from interval_section_median [OF assms] obtain isec
    where i: "interval_section (intervals s) = Inr isec"
      "List.map_filter stats_median isec = [sort (intervals s) ! (length (intervals s) div 2)]"
    by blast
  have "\<exists>dsec. delta_section (power_deltas s) = Inr dsec
      \<and> List.map_filter stats_median dsec
        = (if power_deltas s = [] then []
           else [sort (power_deltas s) ! (length (power_deltas s) div 2)])"
  proof (cases "power_deltas s = []")
    case True
    then show ?thesis by (simp add: delta_section_def List.map_filter_simps)
  next
    case False
    from delta_section_median [OF False] False show ?thesis by simp
  qed
  then obtain dsec where d: "delta_section (power_deltas s) = Inr dsec"
    "List.map_filter stats_median dsec
        = (if power_deltas s = [] then []
           else [sort (power_deltas s) ! (length (power_deltas s) div 2)])"
    by blast
  have "show_histogram s = Inr (isec @ dsec, 0)"
    using assms by (simp add: show_histogram_def i(1) d(1))
  then show ?thesis by (simp add: map_filter_append i(2) d(2))
qed

lemma median_index_parity:
  "(odd n \<longrightarrow> n div 2 = (n - 1) div 2) \<and> (even n \<and> 0 < n \<longrightarrow> n div 2 = Suc ((n - 1) div 2))"
  by (cases n) (auto elim: oddE)

lemma interval_section_no_delta:
  assumes "ivs \<noteq> []"
  shows "\<exists>isec. interval_section ivs = Inr isec \<and> \<not> list_ex is_delta_line isec"
proof -
  have "\<exists>rows. interval_rows ivs = Inr rows \<and> \<not> list_ex is_delta_line rows"
    unfolding interval_rows_eq [OF assms] by (simp add: list_ex_iff)
  then obtain rows where r: "interval_rows ivs = Inr rows"
    and n: "\<not> list_ex is_delta_line rows" by blast
  show ?thesis
    unfolding interval_section_eq [OF assms r] using n by (simp add: list_ex_iff)
qed

lemma run_quiet:
  "\<forall>q\<in>set quiet. r_charge q = prev_charge s \<Longrightarrow> run s (quiet @ rs) = run s rs"
proof (induction quiet)
  case Nil
  show ?case by simp
next
  case (Cons q quiet)
  then have "r_charge q = prev_charge s" by simp
  then have "run s ((q # quiet) @ rs) = run s (quiet @ rs)"
    by (simp only: append_Cons run_Cons_same)
  with Cons show ?case by simp
qed

lemma alternating_run_eval:
  "\<exists>s' outs. run (main_init 100 0 0) alternating_readings = Inr (s', outs)
     \<and> length outs = 30 \<and> power_deltas s' = [- 1 / 2] \<and> intervals s' \<noteq> []"
proof -
  have e: "map_sum id (\<lambda>p. (power_deltas (fst p), length (snd p)))
      (run (main_init 100 0 0) alternating_readings) = Inr ([- 1 / 2], 30)"
    by (simp add: alternating_readings_def upt_rec poll_def main_init_def Let_def rapl_w_of_eq
        power_w_of_eq avg_w_of_eq rapl_avg_w_of_eq push_window_def AVG_WINDOW_def
        uah_uv_to_w_ms_def sum_dt_of_def sum_energy_of_def sum_rapl_of_def)
  from run_total [of "main_init 100 0 0" alternating_readings] obtain s' outs
    where r: "run (main_init 100 0 0) alternating_readings = Inr (s', outs)" by blast
  with e have l: "length outs = 30" and p: "power_deltas s' = [- 1 / 2]" by simp_all
  from run_intervals [OF r] l have "intervals s' \<noteq> []" by (auto simp: main_init_def)
  with r l p show ?thesis by blast
qed

lemma delta_section_neg_half:
  "delta_section [- 1 / 2]
   = Inr [Text rule_line, DeltaTitle 1, DeltaStats (- 1 / 2) (- 1 / 2) (- 1 / 2) (- 1 / 2),
          Text [], DeltaRow (- 1) (replicate 40 CHR ''#'') 1, DeltaRow (- 1 / 2) [] 0,
          DeltaRow 0 [] 0, Text []]"
  by code_simp

subsection \<open>Claims about the interval histogram\<close>

text \<open>
  C3 (as amended): for a non-empty interval history the interval histogram has one row per
  bucket from the bucket of the minimum to the bucket of the maximum, in steps of the
  bucket width and with the empty buckets in between, followed by one more row for the
  bucket just past the maximum's, whose count is always 0. The bar of a row is
  \<open>round (count / max_count * 40)\<close> characters long, \<open>max_count\<close> being the largest bucket
  count. These rows are what the handler prints after its four summary lines, whatever
  the rest of the state.
\<close>

theorem interval_histogram_rows:
  fixes ivs :: "real list"
  defines "cnt \<equiv> bucket_count (interval_bucket HIST_BUCKET_MS) ivs"
  defines "mx \<equiv> Max (cnt ` interval_bucket HIST_BUCKET_MS ` set ivs)"
  defines "past \<equiv> interval_bucket HIST_BUCKET_MS (Max (set ivs)) + HIST_BUCKET_MS"
  assumes ne: "ivs \<noteq> []"
  shows "\<exists>rows hdr. interval_rows ivs = Inr rows
    \<and> interval_section ivs = Inr (hdr @ rows @ [Text []]) \<and> length hdr = 4
    \<and> rows = map (\<lambda>b. IntervalRow b
                 (replicate (nat (py_round (real (cnt b) / real mx * 40))) CHR ''#'') (cnt b))
               (buckets_min_to_max HIST_BUCKET_MS ivs @ [past])
    \<and> cnt past = 0
    \<and> (\<exists>dsec. show_histogram (s\<lparr>intervals := ivs\<rparr>) = Inr (hdr @ rows @ [Text []] @ dsec, 0))"
proof -
  from interval_rows_eq [OF ne] interval_range_eq [OF ne]
  have r: "interval_rows ivs = Inr (map (\<lambda>b. IntervalRow b
                 (replicate (nat (py_round (real (cnt b) / real mx * 40))) CHR ''#'') (cnt b))
               (buckets_min_to_max HIST_BUCKET_MS ivs @ [past]))"
    by (simp add: cnt_def mx_def past_def bar_w_def)
  have z: "cnt past = 0" unfolding cnt_def past_def by (rule no_interval_above_max)
  from delta_section_total obtain dsec
    where d: "delta_section (power_deltas (s\<lparr>intervals := ivs\<rparr>)) = Inr dsec" by blast
  have h: "show_histogram (s\<lparr>intervals := ivs\<rparr>)
      = Inr ([Text (CHR 0x0A # CHR 0x0A # rule_line), IntervalTitle (length ivs),
            IntervalStats (hd (sort ivs)) (sort ivs ! (length ivs div 2)) (last (sort ivs))
              (sum_list (sort ivs) / real (length ivs)),
            Text []] @ map (\<lambda>b. IntervalRow b
                 (replicate (nat (py_round (real (cnt b) / real mx * 40))) CHR ''#'') (cnt b))
               (buckets_min_to_max HIST_BUCKET_MS ivs @ [past]) @ [Text []] @ dsec, 0)"
    using ne d by (simp add: show_histogram_def interval_section_eq [OF ne r])
  from interval_section_eq [OF ne r] r z h show ?thesis by auto
qed

theorem interval_histogram_rows_witness:
  "[50, 250, 260] \<noteq> ([] :: real list)
   \<and> interval_rows [50, 250, 260]
     = Inr [IntervalRow 0 (replicate 20 CHR ''#'') 1, IntervalRow 100 [] 0,
            IntervalRow 200 (replicate 40 CHR ''#'') 2, IntervalRow 300 [] 0]"
proof -
  have ne: "[50, 250, 260] \<noteq> ([] :: real list)" by simp
  have f: "interval_bucket 100 50 = 0" "interval_bucket 100 250 = 200"
    "interval_bucket 100 260 = 200"
    by (simp_all add: interval_bucket_floor)
  have b: "buckets_min_to_max 100 [50, 250, 260] = [0, 100, 200]"
    by (simp add: buckets_min_to_max_def upt_rec)
  have r: "py_round 20 = 20" "py_round 40 = 40" "py_round 0 = 0"
    by (simp_all add: py_round_def)
  from interval_histogram_rows [OF ne] show ?thesis
    by (auto simp: HIST_BUCKET_MS_def f b r bucket_count_def numeral_2_eq_2)
qed

text \<open>
  C3 as stated fails: a history whose minimum and maximum share bucket 0 gets two rows,
  the second one for bucket 100.
\<close>

theorem interval_rows_past_max:
  "interval_rows [50] = Inr [IntervalRow 0 (replicate 40 CHR ''#'') 1, IntervalRow 100 [] 0]
   \<and> buckets_min_to_max HIST_BUCKET_MS [50] = [0]"
  by code_simp

subsection \<open>Claims about the power-delta history and the first interval\<close>

text \<open>
  C6: an iteration appends a value to the power-delta history exactly when it reports an
  event and the event count has reached \<^verbatim>\<open>AVG_WINDOW\<close>, and the value is the windowed-average
  power minus the windowed-average secondary power of the window as it stands after the
  event was pushed. After a run from the initial state the history holds one such value
  for each event from the 30th on, computed over the 30 most recent events at that
  point. Interrupted after at least one and fewer than \<^verbatim>\<open>AVG_WINDOW\<close> events, the handler
  prints the interval histogram only: title, summary, rows and the closing empty line,
  with no line of the power-delta histogram.
\<close>

theorem power_delta_warmup:
  "(\<exists>s1 out. poll s r = Inr (s1, out)
      \<and> power_deltas s1 =
          (if out \<noteq> None \<and> AVG_WINDOW \<le> sample_num s1
           then power_deltas s @ [ev_avg_w (the out) - ev_rapl_avg_w (the out)]
           else power_deltas s)
      \<and> power_deltas s1 =
          (if out \<noteq> None \<and> AVG_WINDOW \<le> sample_num s1
           then power_deltas s @ [windowed_delta (window s1)]
           else power_deltas s))
   \<and> (\<exists>s' outs. run (main_init c0 p0 t0) rs = Inr (s', outs)
      \<and> power_deltas s' = map (\<lambda>e. ev_avg_w e - ev_rapl_avg_w e) (drop (AVG_WINDOW - 1) outs)
      \<and> power_deltas s'
        = map (\<lambda>i. windowed_delta (drop (Suc i - AVG_WINDOW) (take (Suc i) (map entry_of outs))))
            [AVG_WINDOW - 1 ..< length outs]
      \<and> (0 < length outs \<and> length outs < AVG_WINDOW \<longrightarrow>
           (\<exists>isec rows. interval_section (intervals s') = Inr isec
              \<and> show_histogram s' = Inr (isec, 0)
              \<and> \<not> list_ex is_delta_line isec
              \<and> interval_rows (intervals s') = Inr rows
              \<and> isec = [Text (CHR 0x0A # CHR 0x0A # rule_line), IntervalTitle (length outs),
                  IntervalStats (hd (sort (intervals s')))
                    (sort (intervals s') ! (length outs div 2)) (last (sort (intervals s')))
                    (sum_list (sort (intervals s')) / real (length outs)),
                  Text []] @ rows @ [Text []])))"
proof
  show "\<exists>s1 out. poll s r = Inr (s1, out)
      \<and> power_deltas s1 =
          (if out \<noteq> None \<and> AVG_WINDOW \<le> sample_num s1
           then power_deltas s @ [ev_avg_w (the out) - ev_rapl_avg_w (the out)]
           else power_deltas s)
      \<and> power_deltas s1 =
          (if out \<noteq> None \<and> AVG_WINDOW \<le> sample_num s1
           then power_deltas s @ [windowed_delta (window s1)]
           else power_deltas s)"
  proof (cases "r_charge r = prev_charge s")
    case True
    then show ?thesis by (simp add: poll_same)
  next
    case False
    from poll_changed [OF False] obtain s1 e where p: "poll s r = Inr (s1, Some e)" by blast
    from poll_changed_fields(4,7) [OF False p] poll_changed_delta [OF p] p
    show ?thesis by simp
  qed
next
  from run_total [of "main_init c0 p0 t0" rs] obtain s' outs
    where r: "run (main_init c0 p0 t0) rs = Inr (s', outs)" by blast
  from run_power_deltas [OF r]
  have pd: "power_deltas s' = map (\<lambda>e. ev_avg_w e - ev_rapl_avg_w e) (drop (AVG_WINDOW - 1) outs)"
    by (simp add: main_init_def)
  note pw = run_power_deltas_window [OF r]
  from run_intervals [OF r] have iv: "intervals s' = map ev_dt_ms outs"
    by (simp add: main_init_def)
  have "\<exists>isec rows. interval_section (intervals s') = Inr isec
      \<and> show_histogram s' = Inr (isec, 0) \<and> \<not> list_ex is_delta_line isec
      \<and> interval_rows (intervals s') = Inr rows
      \<and> isec = [Text (CHR 0x0A # CHR 0x0A # rule_line), IntervalTitle (length outs),
                  IntervalStats (hd (sort (intervals s')))
                    (sort (intervals s') ! (length outs div 2)) (last (sort (intervals s')))
                    (sum_list (sort (intervals s')) / real (length outs)),
                  Text []] @ rows @ [Text []]"
    if "0 < length outs \<and> length outs < AVG_WINDOW"
  proof -
    from that have ne: "intervals s' \<noteq> []" by (simp add: iv)
    from that have "length outs \<le> AVG_WINDOW - 1" by arith
    then have e: "power_deltas s' = []" by (simp add: pd)
    from interval_section_no_delta [OF ne] obtain isec
      where i: "interval_section (intervals s') = Inr isec" "\<not> list_ex is_delta_line isec"
      by blast
    from interval_rows_eq [OF ne] obtain rows
      where rows: "interval_rows (intervals s') = Inr rows" by blast
    have l: "length (intervals s') = length outs" by (simp add: iv)
    have sh: "isec = [Text (CHR 0x0A # CHR 0x0A # rule_line), IntervalTitle (length outs),
                  IntervalStats (hd (sort (intervals s')))
                    (sort (intervals s') ! (length outs div 2)) (last (sort (intervals s')))
                    (sum_list (sort (intervals s')) / real (length outs)),
                  Text []] @ rows @ [Text []]"
      using interval_section_eq [OF ne rows] i(1) by (simp add: l)
    have "show_histogram s' = Inr (isec, 0)"
      by (simp add: show_histogram_def ne i(1) e delta_section_def)
    with i rows sh show ?thesis by blast
  qed
  with r pd pw show "\<exists>s' outs. run (main_init c0 p0 t0) rs = Inr (s', outs)
      \<and> power_deltas s' = map (\<lambda>e. ev_avg_w e - ev_rapl_avg_w e) (drop (AVG_WINDOW - 1) outs)
      \<and> power_deltas s'
        = map (\<lambda>i. windowed_delta (drop (Suc i - AVG_WINDOW) (take (Suc i) (map entry_of outs))))
            [AVG_WINDOW - 1 ..< length outs]
      \<and> (0 < length outs \<and> length outs < AVG_WINDOW \<longrightarrow>
           (\<exists>isec rows. interval_section (intervals s') = Inr isec
              \<and> show_histogram s' = Inr (isec, 0)
              \<and> \<not> list_ex is_delta_line isec
              \<and> interval_rows (intervals s') = Inr rows
              \<and> isec = [Text (CHR 0x0A # CHR 0x0A # rule_line), IntervalTitle (length outs),
                  IntervalStats (hd (sort (intervals s')))
                    (sort (intervals s') ! (length outs div 2)) (last (sort (intervals s')))
                    (sum_list (sort (intervals s')) / real (length outs)),
                  Text []] @ rows @ [Text []]))"
    by blast
qed

theorem power_delta_warmup_witness:
  "(\<exists>s' outs. run (main_init 100 0 0)
        [\<lparr>r_charge = 105, r_now = 1, r_voltage = 12000000, r_rapl = 50000\<rparr>] = Inr (s', outs)
     \<and> 0 < length outs \<and> length outs < AVG_WINDOW
     \<and> power_deltas s' = []
     \<and> (\<exists>isec. show_histogram s' = Inr (isec, 0) \<and> \<not> list_ex is_delta_line isec))
   \<and> (\<exists>s' outs. run (main_init 100 0 0) alternating_readings = Inr (s', outs)
     \<and> length outs = 30
     \<and> power_deltas s' = [windowed_delta (map entry_of outs)]
     \<and> windowed_delta (map entry_of outs) = - 1 / 2)"
proof
  let ?rs = "[\<lparr>r_charge = 105, r_now = 1, r_voltage = 12000000, r_rapl = 50000\<rparr>]"
  from power_delta_warmup [of "main_init 100 0 0" "hd ?rs" 100 0 0 ?rs]
  obtain s' outs where r: "run (main_init 100 0 0) ?rs = Inr (s', outs)"
    and pd: "power_deltas s' = map (\<lambda>e. ev_avg_w e - ev_rapl_avg_w e) (drop (AVG_WINDOW - 1) outs)"
    and h: "0 < length outs \<and> length outs < AVG_WINDOW \<longrightarrow>
           (\<exists>isec rows. interval_section (intervals s') = Inr isec
              \<and> show_histogram s' = Inr (isec, 0)
              \<and> \<not> list_ex is_delta_line isec
              \<and> interval_rows (intervals s') = Inr rows
              \<and> isec = [Text (CHR 0x0A # CHR 0x0A # rule_line), IntervalTitle (length outs),
                  IntervalStats (hd (sort (intervals s')))
                    (sort (intervals s') ! (length outs div 2)) (last (sort (intervals s')))
                    (sum_list (sort (intervals s')) / real (length outs)),
                  Text []] @ rows @ [Text []])"
    by blast
  from run_changed_readings [OF r] have "map ev_charge outs = [105]"
    by (simp add: main_init_def)
  then have l: "length outs = 1" by (metis length_map length_Cons list.size(3) One_nat_def)
  then have b: "0 < length outs \<and> length outs < AVG_WINDOW" by (simp add: AVG_WINDOW_def)
  from pd l have "power_deltas s' = []" by (simp add: AVG_WINDOW_def)
  with r b h show "\<exists>s' outs. run (main_init 100 0 0) ?rs = Inr (s', outs)
     \<and> 0 < length outs \<and> length outs < AVG_WINDOW
     \<and> power_deltas s' = []
     \<and> (\<exists>isec. show_histogram s' = Inr (isec, 0) \<and> \<not> list_ex is_delta_line isec)"
    by blast
next
  from power_delta_warmup [of "main_init 100 0 0" "hd alternating_readings" 100 0 0
      alternating_readings]
  obtain s' outs where r: "run (main_init 100 0 0) alternating_readings = Inr (s', outs)"
    and pw: "power_deltas s'
        = map (\<lambda>i. windowed_delta (drop (Suc i - AVG_WINDOW) (take (Suc i) (map entry_of outs))))
            [AVG_WINDOW - 1 ..< length outs]"
    by blast
  from alternating_run_eval r have l: "length outs = 30" and p: "power_deltas s' = [- 1 / 2]"
    by auto
  have "[AVG_WINDOW - 1 ..< length outs] = [29]"
    by (simp add: l AVG_WINDOW_def upt_rec)
  with pw l have w: "power_deltas s' = [windowed_delta (map entry_of outs)]"
    by (simp add: AVG_WINDOW_def)
  with p have "windowed_delta (map entry_of outs) = - 1 / 2" by simp
  with r l w show "\<exists>s' outs. run (main_init 100 0 0) alternating_readings = Inr (s', outs)
     \<and> length outs = 30
     \<and> power_deltas s' = [windowed_delta (map entry_of outs)]
     \<and> windowed_delta (map entry_of outs) = - 1 / 2"
    by blast
qed

text \<open>
  C10: when the first change is seen after any number of unchanged readings, the elapsed
  time of that first event is measured from the clock value taken at initialisation. It
  is the first entry of the interval history and it is counted in the sample count of
  the histogram title. The rows the handler prints are the rows in which every interval
  of the whole history is counted, the first one included: the bucket of the first
  interval has a row, and the count of that row is one more than the number of later
  intervals in the same bucket.
\<close>

theorem first_interval_from_baseline:
  assumes quiet: "\<forall>q\<in>set quiet. r_charge q = c0" and ch: "r_charge r \<noteq> c0"
  shows "\<exists>s' e outs hdr rows dsec.
       run (main_init c0 p0 t0) (quiet @ r # rest) = Inr (s', e # outs)
     \<and> ev_num e = 1 \<and> ev_dt_ms e = (r_now r - t0) * 1000
     \<and> intervals s' = ev_dt_ms e # map ev_dt_ms outs
     \<and> (\<exists>isec. interval_section (intervals s') = Inr isec
          \<and> isec ! 1 = IntervalTitle (Suc (length outs)))
     \<and> (\<forall>b. dict_get (count_buckets (interval_bucket HIST_BUCKET_MS) (intervals s')) b 0
            = bucket_count (interval_bucket HIST_BUCKET_MS)
                (ev_dt_ms e # map ev_dt_ms outs) b)
     \<and> show_histogram s' = Inr (hdr @ rows @ [Text []] @ dsec, 0)
     \<and> length hdr = 4 \<and> hdr ! 1 = IntervalTitle (Suc (length outs))
     \<and> interval_rows (intervals s') = Inr rows
     \<and> rows = map (counted_row (ev_dt_ms e # map ev_dt_ms outs))
                (buckets_min_to_max HIST_BUCKET_MS (ev_dt_ms e # map ev_dt_ms outs)
                 @ [interval_bucket HIST_BUCKET_MS (Max (set (ev_dt_ms e # map ev_dt_ms outs)))
                    + HIST_BUCKET_MS])
     \<and> interval_bucket HIST_BUCKET_MS (ev_dt_ms e)
         \<in> set (buckets_min_to_max HIST_BUCKET_MS (ev_dt_ms e # map ev_dt_ms outs))
     \<and> counted_row (ev_dt_ms e # map ev_dt_ms outs) (interval_bucket HIST_BUCKET_MS (ev_dt_ms e))
         \<in> set rows
     \<and> (\<exists>bar. counted_row (ev_dt_ms e # map ev_dt_ms outs)
                 (interval_bucket HIST_BUCKET_MS (ev_dt_ms e))
               = IntervalRow (interval_bucket HIST_BUCKET_MS (ev_dt_ms e)) bar
                   (Suc (bucket_count (interval_bucket HIST_BUCKET_MS) (map ev_dt_ms outs)
                          (interval_bucket HIST_BUCKET_MS (ev_dt_ms e)))))"
proof -
  let ?s0 = "main_init c0 p0 t0"
  have q: "\<forall>q\<in>set quiet. r_charge q = prev_charge ?s0" using quiet by (simp add: main_init_def)
  have c: "r_charge r \<noteq> prev_charge ?s0" using ch by (simp add: main_init_def)
  from poll_changed [OF c] obtain s1 e where p: "poll ?s0 r = Inr (s1, Some e)" by blast
  note f = poll_changed_fields(1,2,5) [OF c p]
  from run_total [of s1 rest] obtain s' outs where r1: "run s1 rest = Inr (s', outs)" by blast
  have r: "run ?s0 (quiet @ r # rest) = Inr (s', e # outs)"
    by (simp only: run_quiet [OF q] run_Cons_changed [OF p] r1) simp
  let ?ivs = "ev_dt_ms e # map ev_dt_ms outs"
  let ?f = "interval_bucket HIST_BUCKET_MS"
  have iv: "intervals s' = ?ivs"
    using run_intervals [OF r] by (simp add: main_init_def)
  then have ne: "intervals s' \<noteq> []" by simp
  have ne': "?ivs \<noteq> []" by simp
  define rows where "rows = map (counted_row ?ivs)
      (buckets_min_to_max HIST_BUCKET_MS ?ivs @ [?f (Max (set ?ivs)) + HIST_BUCKET_MS])"
  have rows: "interval_rows (intervals s') = Inr rows"
    unfolding iv rows_def by (rule interval_rows_counted [OF ne'])
  have t: "\<exists>isec. interval_section (intervals s') = Inr isec
      \<and> isec ! 1 = IntervalTitle (Suc (length outs))"
    unfolding interval_section_eq [OF ne rows] by (simp add: iv)
  from show_histogram_eq [OF ne] rows obtain dsec where
    sh: "show_histogram s'
      = Inr ([Text (CHR 0x0A # CHR 0x0A # rule_line), IntervalTitle (length (intervals s')),
              IntervalStats (hd (sort (intervals s')))
                (sort (intervals s') ! (length (intervals s') div 2))
                (last (sort (intervals s')))
                (sum_list (sort (intervals s')) / real (length (intervals s'))),
              Text []] @ rows @ [Text []] @ dsec, 0)"
    by auto
  define hdr where "hdr = [Text (CHR 0x0A # CHR 0x0A # rule_line),
      IntervalTitle (length (intervals s')),
      IntervalStats (hd (sort (intervals s')))
        (sort (intervals s') ! (length (intervals s') div 2))
        (last (sort (intervals s')))
        (sum_list (sort (intervals s')) / real (length (intervals s'))),
      Text []]"
  have h: "show_histogram s' = Inr (hdr @ rows @ [Text []] @ dsec, 0)"
    "length hdr = 4" "hdr ! 1 = IntervalTitle (Suc (length outs))"
    using sh by (simp_all add: hdr_def iv)
  have m: "?f (ev_dt_ms e) \<in> set (buckets_min_to_max HIST_BUCKET_MS ?ivs)"
    by (rule bucket_in_range) simp
  then have mr: "counted_row ?ivs (?f (ev_dt_ms e)) \<in> set rows"
    by (simp add: rows_def)
  have cr: "\<exists>bar. counted_row ?ivs (?f (ev_dt_ms e))
      = IntervalRow (?f (ev_dt_ms e)) bar
          (Suc (bucket_count ?f (map ev_dt_ms outs) (?f (ev_dt_ms e))))"
    by (simp add: counted_row_def Let_def bucket_count_Cons)
  have n: "ev_num e = 1" "ev_dt_ms e = (r_now r - t0) * 1000"
    using f by (simp_all add: main_init_def)
  have dg: "\<forall>b. dict_get (count_buckets ?f (intervals s')) b 0 = bucket_count ?f ?ivs b"
    by (simp add: dict_get_count_buckets iv)
  have re: "rows = map (counted_row ?ivs)
      (buckets_min_to_max HIST_BUCKET_MS ?ivs @ [?f (Max (set ?ivs)) + HIST_BUCKET_MS])"
    by (rule rows_def)
  show ?thesis
    apply (rule exI [of _ s'], rule exI [of _ e], rule exI [of _ outs])
    apply (rule exI [of _ hdr], rule exI [of _ rows], rule exI [of _ dsec])
    apply (intro conjI)
    apply (rule r n iv t dg h rows re m mr cr)+
    done
qed

theorem first_interval_from_baseline_witness:
  "r_charge \<lparr>r_charge = 100, r_now = 2, r_voltage = 12000000, r_rapl = 10\<rparr> = 100
   \<and> r_charge \<lparr>r_charge = 105, r_now = 3, r_voltage = 12000000, r_rapl = 50000\<rparr> \<noteq> 100
   \<and> (\<exists>s' e outs. run (main_init 100 0 1)
          ([\<lparr>r_charge = 100, r_now = 2, r_voltage = 12000000, r_rapl = 10\<rparr>]
           @ \<lparr>r_charge = 105, r_now = 3, r_voltage = 12000000, r_rapl = 50000\<rparr> # [])
          = Inr (s', e # outs)
        \<and> ev_num e = 1 \<and> ev_dt_ms e = 2000 \<and> intervals s' = 2000 # map ev_dt_ms outs)"
  using first_interval_from_baseline [of
      "[\<lparr>r_charge = 100, r_now = 2, r_voltage = 12000000, r_rapl = 10\<rparr>]" 100
      "\<lparr>r_charge = 105, r_now = 3, r_voltage = 12000000, r_rapl = 50000\<rparr>" 0 1 "[]"]
  by auto

subsection \<open>The end-to-end scenario and the median\<close>

text \<open>
  C7: with the initial reading 100 followed by the readings 100, 105, 105, 110, the voltage
  constant at 12000000, the RAPL counter advancing by 50000 per change and each change
  1000 ms after the previous one, exactly two events are reported (to 105 and to 110),
  the interval history has length 2, and the instantaneous power of each event is
  \<open>\<bar>5 * 12000000 * 3.6e-6 / 1000\<bar> = 0.216\<close>.
\<close>

theorem scenario_two_events:
  "\<exists>s' e1 e2. run (main_init 100 p0 t0)
      [\<lparr>r_charge = 100, r_now = ta, r_voltage = 12000000, r_rapl = pa\<rparr>,
       \<lparr>r_charge = 105, r_now = t0 + 1, r_voltage = 12000000, r_rapl = p0 + 50000\<rparr>,
       \<lparr>r_charge = 105, r_now = tb, r_voltage = 12000000, r_rapl = pb\<rparr>,
       \<lparr>r_charge = 110, r_now = t0 + 2, r_voltage = 12000000, r_rapl = p0 + 100000\<rparr>]
     = Inr (s', [e1, e2])
     \<and> ev_charge e1 = 105 \<and> ev_delta e1 = 5 \<and> ev_dt_ms e1 = 1000
     \<and> ev_charge e2 = 110 \<and> ev_delta e2 = 5 \<and> ev_dt_ms e2 = 1000
     \<and> sample_num s' = 2 \<and> intervals s' = [1000, 1000] \<and> length (intervals s') = 2
     \<and> ev_power_w e1 = \<bar>5 * 12000000 * uah_uv_to_w_ms / 1000\<bar> \<and> ev_power_w e1 = 216 / 1000
     \<and> ev_power_w e2 = \<bar>5 * 12000000 * uah_uv_to_w_ms / 1000\<bar> \<and> ev_power_w e2 = 216 / 1000
     \<and> ev_rapl_w e1 = 50000 / (1000 * 1000) \<and> ev_rapl_w e2 = 50000 / (1000 * 1000)"
  by (simp add: poll_def main_init_def Let_def rapl_w_of_eq power_w_of_eq avg_w_of_eq
      rapl_avg_w_of_eq push_window_def AVG_WINDOW_def uah_uv_to_w_ms_def)

text \<open>
  C8 (as amended): the medians printed at termination, for the interval history and for a
  non-empty power-delta history, are the elements at index \<open>n div 2\<close> of the sorted
  histories, an index that is in range. For an odd count this is the middle element (the
  lower median); for an even count it is the upper of the two middle elements, the one
  after the lower median. For \<open>[10, 20, 30]\<close> it is 20 and for \<open>[10, 20, 30, 40]\<close> it is 30.
\<close>

theorem printed_median_index:
  "(intervals s \<noteq> [] \<longrightarrow>
      (\<exists>ls. show_histogram s = Inr (ls, 0)
         \<and> List.map_filter stats_median ls
           = sort (intervals s) ! (length (intervals s) div 2)
             # (if power_deltas s = [] then []
                else [sort (power_deltas s) ! (length (power_deltas s) div 2)]))
      \<and> length (intervals s) div 2 < length (sort (intervals s))
      \<and> (power_deltas s \<noteq> [] \<longrightarrow>
           length (power_deltas s) div 2 < length (sort (power_deltas s)))
      \<and> (odd (length (intervals s)) \<longrightarrow>
           sort (intervals s) ! (length (intervals s) div 2) = lower_median (intervals s))
      \<and> (even (length (intervals s)) \<longrightarrow>
           sort (intervals s) ! (length (intervals s) div 2)
           = sort (intervals s) ! Suc ((length (intervals s) - 1) div 2)))
   \<and> map_sum id (List.map_filter stats_median \<circ> fst)
        (show_histogram ((main_init 0 0 0)\<lparr>intervals := [10, 20, 30]\<rparr>)) = Inr [20]
   \<and> map_sum id (List.map_filter stats_median \<circ> fst)
        (show_histogram ((main_init 0 0 0)\<lparr>intervals := [10, 20, 30, 40]\<rparr>)) = Inr [30]"
proof (intro conjI impI)
  assume ne: "intervals s \<noteq> []"
  from show_histogram_medians [OF ne]
  show "\<exists>ls. show_histogram s = Inr (ls, 0)
         \<and> List.map_filter stats_median ls
           = sort (intervals s) ! (length (intervals s) div 2)
             # (if power_deltas s = [] then []
                else [sort (power_deltas s) ! (length (power_deltas s) div 2)])" .
  show "length (intervals s) div 2 < length (sort (intervals s))" using ne by simp
  show "length (power_deltas s) div 2 < length (sort (power_deltas s))"
    if "power_deltas s \<noteq> []" using that by simp
  show "sort (intervals s) ! (length (intervals s) div 2) = lower_median (intervals s)"
    if "odd (length (intervals s))"
    using that median_index_parity [of "length (intervals s)"] by (simp add: lower_median_def)
  show "sort (intervals s) ! (length (intervals s) div 2)
        = sort (intervals s) ! Suc ((length (intervals s) - 1) div 2)"
    if "even (length (intervals s))"
    using that ne median_index_parity [of "length (intervals s)"] by simp
next
  have "intervals ((main_init 0 0 0)\<lparr>intervals := [10, 20, 30]\<rparr>) \<noteq> []" by simp
  from show_histogram_medians [OF this]
  show "map_sum id (List.map_filter stats_median \<circ> fst)
        (show_histogram ((main_init 0 0 0)\<lparr>intervals := [10, 20, 30]\<rparr>)) = Inr [20]"
    by (auto simp: main_init_def)
next
  have "intervals ((main_init 0 0 0)\<lparr>intervals := [10, 20, 30, 40]\<rparr>) \<noteq> []" by simp
  from show_histogram_medians [OF this]
  show "map_sum id (List.map_filter stats_median \<circ> fst)
        (show_histogram ((main_init 0 0 0)\<lparr>intervals := [10, 20, 30, 40]\<rparr>)) = Inr [30]"
    by (auto simp: main_init_def)
qed

theorem printed_median_index_witness:
  "intervals ((main_init 0 0 0)\<lparr>intervals := [30, 10, 40, 20], power_deltas := [3, - 1, 2]\<rparr>) \<noteq> []
   \<and> power_deltas ((main_init 0 0 0)\<lparr>intervals := [30, 10, 40, 20], power_deltas := [3, - 1, 2]\<rparr>)
     \<noteq> []
   \<and> even (length [30, 10, 40, 20 :: real])
   \<and> map_sum id (List.map_filter stats_median \<circ> fst)
       (show_histogram ((main_init 0 0 0)\<lparr>intervals := [30, 10, 40, 20],
          power_deltas := [3, - 1, 2]\<rparr>)) = Inr [30, 2]
   \<and> odd (length [30, 10, 20 :: real])
   \<and> sort [30, 10, 20 :: real] ! (3 div 2) = lower_median [30, 10, 20]
   \<and> lower_median [30, 10, 20] = 20"
  using printed_median_index [of
      "(main_init 0 0 0)\<lparr>intervals := [30, 10, 40, 20], power_deltas := [3, - 1, 2]\<rparr>"]
    printed_median_index [of "(main_init 0 0 0)\<lparr>intervals := [30, 10, 20]\<rparr>"]
  by (auto simp: main_init_def lower_median_def)

text \<open>
  C8 as stated fails: for the even count \<open>[10, 20, 30, 40]\<close> the handler prints 30, the
  lower median is 20.
\<close>

theorem median_not_lower_for_even:
  "map_sum id (List.map_filter stats_median \<circ> fst)
     (show_histogram ((main_init 0 0 0)\<lparr>intervals := [10, 20, 30, 40]\<rparr>)) = Inr [30]
   \<and> lower_median [10, 20, 30, 40] = 20"
proof -
  have "intervals ((main_init 0 0 0)\<lparr>intervals := [10, 20, 30, 40]\<rparr>) \<noteq> []" by simp
  from show_histogram_medians [OF this]
  have "map_sum id (List.map_filter stats_median \<circ> fst)
        (show_histogram ((main_init 0 0 0)\<lparr>intervals := [10, 20, 30, 40]\<rparr>)) = Inr [30]"
    by (auto simp: main_init_def)
  then show ?thesis by (simp add: lower_median_def)
qed

subsection \<open>Bucket assignment\<close>

lemma delta_bucket_nonneg: "\<not> v < 0 \<Longrightarrow> delta_bucket w v = floor_bucket w v"
  by (simp add: delta_bucket_def floor_bucket_def py_floordiv_def py_int_of_int)

lemma delta_bucket_neg:
  "v < 0 \<Longrightarrow> delta_bucket w v = - (of_int \<lfloor>- v / w\<rfloor> + 1) * w"
  by (simp add: delta_bucket_def py_floordiv_def)

lemma floor_neg_not_int:
  fixes x :: real
  assumes "x \<noteq> of_int \<lfloor>x\<rfloor>"
  shows "\<lfloor>- x\<rfloor> = - \<lfloor>x\<rfloor> - 1"
proof -
  have "of_int \<lfloor>x\<rfloor> < x" using assms of_int_floor_le [of x] by (auto simp: less_le)
  moreover have "x < of_int \<lfloor>x\<rfloor> + 1" by linarith
  ultimately show ?thesis by (intro floor_unique) (simp, linarith, simp)
qed

lemma floor_neg_int:
  fixes x :: real
  assumes "x = of_int \<lfloor>x\<rfloor>"
  shows "\<lfloor>- x\<rfloor> = - \<lfloor>x\<rfloor>"
proof -
  have "- x = of_int (- \<lfloor>x\<rfloor>)" using assms by simp
  then show ?thesis by (metis floor_of_int)
qed

lemma delta_bucket_neg_floor:
  assumes "v < 0" "v / w \<noteq> of_int \<lfloor>v / w\<rfloor>"
  shows "delta_bucket w v = floor_bucket w v"
proof -
  have "\<lfloor>- v / w\<rfloor> = - \<lfloor>v / w\<rfloor> - 1"
    using floor_neg_not_int [OF assms(2)] by simp
  then show ?thesis using assms(1) by (simp add: delta_bucket_neg floor_bucket_def)
qed

lemma delta_bucket_neg_multiple:
  assumes "v < 0" "v / w = of_int \<lfloor>v / w\<rfloor>"
  shows "delta_bucket w v = floor_bucket w v - w"
proof -
  have "\<lfloor>- v / w\<rfloor> = - \<lfloor>v / w\<rfloor>"
    using floor_neg_int [OF assms(2)] by simp
  then show ?thesis using assms(1) by (simp add: delta_bucket_neg floor_bucket_def algebra_simps)
qed

text \<open>
  The formula of the branch for non-negative values, which line 74 also applies to the
  minimum, is the floor bucket for every value, negative ones included.
\<close>

lemma nonneg_formula_is_floor:
  "of_int (py_int (py_floordiv d w)) * w = floor_bucket w d"
  by (simp add: floor_bucket_def py_floordiv_def py_int_of_int)

text \<open>
  The negative branch agrees with the floor bucket except at the multiples of the width.
\<close>

lemma delta_bucket_floor_cases:
  "(0 \<le> v \<longrightarrow> delta_bucket w v = floor_bucket w v)
    \<and> real_of_int (interval_bucket wi v) = floor_bucket (of_int wi) v
    \<and> (v < 0 \<longrightarrow> delta_bucket w v = - (of_int \<lfloor>- v / w\<rfloor> + 1) * w)
    \<and> (v < 0 \<and> v / w \<noteq> of_int \<lfloor>v / w\<rfloor> \<longrightarrow> delta_bucket w v = floor_bucket w v)
    \<and> (v < 0 \<and> v / w = of_int \<lfloor>v / w\<rfloor> \<longrightarrow> delta_bucket w v = floor_bucket w v - w)
    \<and> delta_bucket (1 / 2) (- 1 / 10) = - 1 / 2"
proof (intro conjI impI)
  show "delta_bucket (1 / 2) (- 1 / 10) = - 1 / 2"
    by (simp add: delta_bucket_def py_floordiv_def)
  show "real_of_int (interval_bucket wi v) = floor_bucket (of_int wi) v"
    by (simp add: interval_bucket_floor floor_bucket_def)
  show "delta_bucket w v = floor_bucket w v" if "0 \<le> v"
    using that by (intro delta_bucket_nonneg) simp
  show "delta_bucket w v = - (of_int \<lfloor>- v / w\<rfloor> + 1) * w" if "v < 0"
    using that by (rule delta_bucket_neg)
  show "delta_bucket w v = floor_bucket w v" if "v < 0 \<and> v / w \<noteq> of_int \<lfloor>v / w\<rfloor>"
    using that by (intro delta_bucket_neg_floor) simp_all
  show "delta_bucket w v = floor_bucket w v - w" if "v < 0 \<and> v / w = of_int \<lfloor>v / w\<rfloor>"
    using that by (intro delta_bucket_neg_multiple) simp_all
qed

text \<open>
  C2: the bucket of a negative power delta is meant to be its floor bucket, which is what
  line 74 and the branch for non-negative values compute. At a negative multiple of the
  width the negative branch misses it by one bucket: the run \<open>alternating_readings\<close> ends
  with the power-delta history \<open>[- 0.5]\<close>, and the handler counts the value in the row of
  bucket \<open>- 1\<close>, while \<open>floor (- 0.5 / 0.5) * 0.5 = - 0.5\<close>.
\<close>

theorem negative_multiple_below_floor:
  "(\<exists>s' outs ihdr irows. run (main_init 100 0 0) alternating_readings = Inr (s', outs)
      \<and> length outs = 30 \<and> power_deltas s' = [- 1 / 2]
      \<and> show_histogram s'
        = Inr (ihdr @ irows @ [Text []]
               @ [Text rule_line, DeltaTitle 1,
                  DeltaStats (- 1 / 2) (- 1 / 2) (- 1 / 2) (- 1 / 2), Text [],
                  DeltaRow (- 1) (replicate 40 CHR ''#'') 1, DeltaRow (- 1 / 2) [] 0,
                  DeltaRow 0 [] 0, Text []], 0))
   \<and> delta_bucket DELTA_BUCKET_W (- 1 / 2) = - 1
   \<and> floor_bucket DELTA_BUCKET_W (- 1 / 2) = - 1 / 2
   \<and> of_int (py_int (py_floordiv (- 1 / 2) DELTA_BUCKET_W)) * DELTA_BUCKET_W = (- 1 / 2 :: real)"
proof -
  from alternating_run_eval obtain s' outs
    where r: "run (main_init 100 0 0) alternating_readings = Inr (s', outs)"
      and l: "length outs = 30" and p: "power_deltas s' = [- 1 / 2]"
      and ne: "intervals s' \<noteq> []" by blast
  from show_histogram_eq [OF ne] p delta_section_neg_half
  have "\<exists>ihdr irows. show_histogram s'
        = Inr (ihdr @ irows @ [Text []]
               @ [Text rule_line, DeltaTitle 1,
                  DeltaStats (- 1 / 2) (- 1 / 2) (- 1 / 2) (- 1 / 2), Text [],
                  DeltaRow (- 1) (replicate 40 CHR ''#'') 1, DeltaRow (- 1 / 2) [] 0,
                  DeltaRow 0 [] 0, Text []], 0)"
    by (metis sum.inject(2))
  with r l p have a: "\<exists>s' outs ihdr irows.
      run (main_init 100 0 0) alternating_readings = Inr (s', outs)
      \<and> length outs = 30 \<and> power_deltas s' = [- 1 / 2]
      \<and> show_histogram s'
        = Inr (ihdr @ irows @ [Text []]
               @ [Text rule_line, DeltaTitle 1,
                  DeltaStats (- 1 / 2) (- 1 / 2) (- 1 / 2) (- 1 / 2), Text [],
                  DeltaRow (- 1) (replicate 40 CHR ''#'') 1, DeltaRow (- 1 / 2) [] 0,
                  DeltaRow 0 [] 0, Text []], 0)"
    by blast
  have b: "delta_bucket DELTA_BUCKET_W (- 1 / 2) = - 1"
    "floor_bucket DELTA_BUCKET_W (- 1 / 2) = - 1 / 2"
    "of_int (py_int (py_floordiv (- 1 / 2) DELTA_BUCKET_W)) * DELTA_BUCKET_W = (- 1 / 2 :: real)"
    by (simp_all add: delta_bucket_def floor_bucket_def py_floordiv_def py_int_def
        DELTA_BUCKET_W_def)
  from a b show ?thesis by blast
qed

end
